theory Spec2Isabelle
  imports Main "HOL-Library.AList"
begin

section \<open>The consistent hash ring (src/coordinator/hashRing.js)\<close>

text \<open>
  A JavaScript value that is either a broker name or \<open>undefined\<close> is a
  \<open>string option\<close>, with \<open>None\<close> for \<open>undefined\<close>. Ring positions are
  JavaScript numbers holding integers in \<open>[0, 2^32)\<close>; they are modelled as \<open>nat\<close>
  and the reduction modulo \<open>hashSpace\<close> is written out as in the source.
\<close>

type_synonym jsname = "string option"

text \<open>
  A value that arrives in a JSON body or as a route parameter, as far as the code
  below tells values apart: a string, a number, a boolean, \<open>null\<close>, a missing
  field (\<open>undefined\<close>), or an object or array. \<open>truthy\<close> is JavaScript's
  conversion to a boolean, as in \<open>!key\<close>.
\<close>

datatype js_value = JString string | JNumber int | JBool bool | JNull | JUndefined | JObject

fun isString :: "js_value \<Rightarrow> bool" where
  "isString (JString s) = True"
| "isString v = False"

fun truthy :: "js_value \<Rightarrow> bool" where
  "truthy (JString s) = (s \<noteq> [])"
| "truthy (JNumber n) = (n \<noteq> 0)"
| "truthy (JBool b) = b"
| "truthy JNull = False"
| "truthy JUndefined = False"
| "truthy JObject = True"

record node_data =
  url :: string
  virtualPositions :: "nat list"

text \<open>
  The class \<open>HashRing\<close>: \<open>ring\<close> is the Map from position to broker name (only
  \<open>has\<close>, \<open>get\<close>, \<open>set\<close> and \<open>delete\<close> are used on it, so its insertion order is
  not observable), \<open>sortedPositions\<close> the array of positions, and \<open>nodes\<close> the Map
  from broker name to its data, kept as an association list in insertion order
  because \<open>getAllNodeNames\<close> exposes that order.
\<close>

record hash_ring =
  virtualNodeCount :: nat
  ring :: "nat \<rightharpoonup> string"
  sortedPositions :: "nat list"
  nodes :: "(string \<times> node_data) list"

definition hashSpace :: nat where
  "hashSpace = 2 ^ 32"

text \<open>The constructor \<open>new HashRing(virtualNodeCount)\<close>.\<close>

definition new_HashRing :: "nat \<Rightarrow> hash_ring" where
  "new_HashRing v = \<lparr>virtualNodeCount = v, ring = Map.empty, sortedPositions = [], nodes = []\<rparr>"

text \<open>
  \<open>hash(key)\<close> on a string. The digest comes from Node's \<open>crypto\<close> module, which
  is not part of the repository: the parameter \<open>H\<close> stands for the function that
  sends a string to \<open>parseInt(sha256hex(s).substring(0, 8), 16)\<close>. The reduction
  modulo \<open>hashSpace\<close> is the source's. \<open>addNode\<close> calls it on a template string;
  what it does on a key that is not a string is part of \<open>getNodesForKey\<close> below.
\<close>

definition hash :: "(string \<Rightarrow> nat) \<Rightarrow> string \<Rightarrow> nat" where
  "hash H key = H key mod hashSpace"

text \<open>The decimal rendering of a loop counter inside the template string.\<close>

fun digit_char :: "nat \<Rightarrow> char" where
  "digit_char n = char_of (48 + n)"

function string_of_nat :: "nat \<Rightarrow> string" where
  "string_of_nat n =
     (if n < 10 then [digit_char n] else string_of_nat (n div 10) @ [digit_char (n mod 10)])"
  by pat_completeness auto
termination
  by (relation "measure id") auto

declare string_of_nat.simps [simp del]

definition vnode_label :: "string \<Rightarrow> nat \<Rightarrow> string" where
  "vnode_label nodeName i = nodeName @ '':vnode'' @ string_of_nat i"

text \<open>
  The collision loop of \<open>addNode\<close>:
  \<^verbatim>\<open>while (this.ring.has(position)) position = (position + 1) % this.hashSpace;\<close>
  The loop runs forever exactly when every position of the hash space is taken.
  The fuel counts the positions still to be tried; started with \<open>hashSpace\<close> it
  runs out only after every position has been tried, which is the case in which
  the source does not return (lemma \<open>probe_None_full\<close> below).
\<close>

fun probe :: "(nat \<rightharpoonup> string) \<Rightarrow> nat \<Rightarrow> nat \<Rightarrow> nat option" where
  "probe rg position 0 = None"
| "probe rg position (Suc fuel) =
     (if rg position \<noteq> None then probe rg ((position + 1) mod hashSpace) fuel
      else Some position)"

text \<open>
  The \<open>for\<close> loop of \<open>addNode\<close> over the virtual node indices. The state is the
  ring Map, the local array \<open>virtualPositions\<close> and the array \<open>sortedPositions\<close>.
\<close>

fun addNode_loop ::
  "(string \<Rightarrow> nat) \<Rightarrow> string \<Rightarrow> nat list \<Rightarrow> (nat \<rightharpoonup> string) \<times> nat list \<times> nat list
    \<Rightarrow> ((nat \<rightharpoonup> string) \<times> nat list \<times> nat list) option" where
  "addNode_loop H nodeName [] st = Some st"
| "addNode_loop H nodeName (i # is) (rg, vps, sps) =
     (case probe rg (hash H (vnode_label nodeName i)) hashSpace of
        None \<Rightarrow> None
      | Some position \<Rightarrow>
          addNode_loop H nodeName is (rg(position \<mapsto> nodeName), vps @ [position], sps @ [position]))"

text \<open>
  \<open>addNode(nodeName, url)\<close>; \<open>None\<close> when the collision loop does not return.
  \<open>Map.set\<close> on a name already present replaces the value and keeps the entry's
  place, which is what \<open>AList.update\<close> does.
\<close>

definition addNode :: "(string \<Rightarrow> nat) \<Rightarrow> hash_ring \<Rightarrow> string \<Rightarrow> string \<Rightarrow> hash_ring option" where
  "addNode H r nodeName u =
     (case addNode_loop H nodeName [0..<virtualNodeCount r] (ring r, [], sortedPositions r) of
        None \<Rightarrow> None
      | Some (rg, vps, sps) \<Rightarrow>
          Some (r\<lparr>ring := rg, sortedPositions := sort sps,
                  nodes := AList.update nodeName \<lparr>url = u, virtualPositions = vps\<rparr> (nodes r)\<rparr>))"

text \<open>
  \<open>removeNode(nodeName)\<close>. \<open>indexOf\<close> followed by \<open>splice(idx, 1)\<close> removes the
  first occurrence, if there is one: \<open>remove1\<close>.
\<close>

fun removeNode_loop :: "nat list \<Rightarrow> (nat \<rightharpoonup> string) \<times> nat list \<Rightarrow> (nat \<rightharpoonup> string) \<times> nat list" where
  "removeNode_loop [] st = st"
| "removeNode_loop (position # ps) (rg, sps) =
     removeNode_loop ps (rg(position := None), remove1 position sps)"

definition removeNode :: "hash_ring \<Rightarrow> string \<Rightarrow> hash_ring" where
  "removeNode r nodeName =
     (case map_of (nodes r) nodeName of
        None \<Rightarrow> r
      | Some nodeData \<Rightarrow>
          (case removeNode_loop (virtualPositions nodeData) (ring r, sortedPositions r) of
             (rg, sps) \<Rightarrow>
               r\<lparr>ring := rg, sortedPositions := sps, nodes := AList.delete nodeName (nodes r)\<rparr>))"

text \<open>
  \<open>_findClockwiseIndex(keyPosition)\<close>: the binary search loop, then the wrap to
  index 0. \<open>mid\<close> is below \<open>right\<close>, which never exceeds the length of the
  array, so the read \<open>sortedPositions[mid]\<close> is always in range.
\<close>

function findClockwise_loop :: "nat list \<Rightarrow> nat \<Rightarrow> nat \<Rightarrow> nat \<Rightarrow> nat" where
  "findClockwise_loop sps keyPosition left right =
     (if left < right then
        (let mid = (left + right) div 2 in
           if sps ! mid < keyPosition then findClockwise_loop sps keyPosition (mid + 1) right
           else findClockwise_loop sps keyPosition left mid)
      else left)"
  by pat_completeness auto
termination
  by (relation "measure (\<lambda>(sps, keyPosition, left, right). right - left)") auto

declare findClockwise_loop.simps [simp del]

definition findClockwiseIndex :: "hash_ring \<Rightarrow> nat \<Rightarrow> nat" where
  "findClockwiseIndex r keyPosition =
     (let left = findClockwise_loop (sortedPositions r) keyPosition 0 (length (sortedPositions r))
      in if left \<ge> length (sortedPositions r) then 0 else left)"

text \<open>
  The walk of \<open>getNodesForKey\<close>:
  \<^verbatim>\<open>for (let i = 0; i < total && assignedNodes.length < replicationFactor; i++)\<close>
  \<open>ring.get(position)\<close> may be \<open>undefined\<close>, hence the \<open>jsname\<close>s. The index
  \<open>(startIndex + i) % total\<close> is below \<open>total\<close>, the length of the array
  (\<open>totalPos\<close> here, as \<open>total\<close> is taken in HOL).
\<close>

function getNodes_loop ::
  "hash_ring \<Rightarrow> nat \<Rightarrow> nat \<Rightarrow> int \<Rightarrow> nat \<Rightarrow> jsname list \<Rightarrow> jsname set \<Rightarrow> jsname list" where
  "getNodes_loop r startIndex totalPos replicationFactor i assignedNodes seenNodes =
     (if i < totalPos \<and> int (length assignedNodes) < replicationFactor then
        (let position = sortedPositions r ! ((startIndex + i) mod totalPos);
             nodeName = ring r position
         in if nodeName \<notin> seenNodes
            then getNodes_loop r startIndex totalPos replicationFactor (i + 1)
                   (assignedNodes @ [nodeName]) (insert nodeName seenNodes)
            else getNodes_loop r startIndex totalPos replicationFactor (i + 1)
                   assignedNodes seenNodes)
      else assignedNodes)"
  by pat_completeness auto
termination
  by (relation "measure (\<lambda>(r, startIndex, totalPos, replicationFactor, i, assignedNodes, seenNodes). totalPos - i)")
     auto

declare getNodes_loop.simps [simp del]

text \<open>
  The two ways in which \<open>getNodesForKey\<close> throws: its own
  \<open>Error('Hash ring is empty')\<close>, and the \<open>TypeError\<close> of
  \<open>crypto.createHash('sha256').update(key)\<close> inside \<open>hash(key)\<close> when the key is
  not a string (of the values a JSON body can hold, \<open>update\<close> takes strings only).
\<close>

datatype ring_error = RingEmpty | HashTypeError

record key_nodes =
  primary :: jsname
  replicas :: "jsname list"
  keyHash :: nat

text \<open>
  \<open>getNodesForKey(key, replicationFactor)\<close>. The two \<open>Inl\<close> branches are the
  throws: the guard on \<open>nodes.size\<close> comes first, then the call \<open>this.hash(key)\<close>,
  which throws when the key is not a string. The reads of \<open>sortedPositions\<close>
  and of the ring Map do not throw. The destructuring
  \<open>[primary, ...replicas] = assignedNodes\<close> gives \<open>undefined\<close> and the empty array
  on an empty \<open>assignedNodes\<close>.
\<close>

definition getNodesForKey ::
  "(string \<Rightarrow> nat) \<Rightarrow> hash_ring \<Rightarrow> js_value \<Rightarrow> int \<Rightarrow> ring_error + key_nodes" where
  "getNodesForKey H r key replicationFactor =
     (if length (nodes r) = 0 then Inl RingEmpty
      else
        (case key of
           JString s \<Rightarrow>
             (let keyPosition = hash H s;
                  startIndex = findClockwiseIndex r keyPosition;
                  totalPos = length (sortedPositions r);
                  assignedNodes = getNodes_loop r startIndex totalPos replicationFactor 0 [] {}
              in Inr \<lparr>primary = (case assignedNodes of [] \<Rightarrow> None | p # rest \<Rightarrow> p),
                      replicas = (case assignedNodes of [] \<Rightarrow> [] | p # rest \<Rightarrow> rest),
                      keyHash = keyPosition\<rparr>)
         | _ \<Rightarrow> Inl HashTypeError))"

definition getNodeUrl :: "hash_ring \<Rightarrow> string \<Rightarrow> string option" where
  "getNodeUrl r nodeName = map_option url (map_of (nodes r) nodeName)"

definition getAllNodeNames :: "hash_ring \<Rightarrow> string list" where
  "getAllNodeNames r = map fst (nodes r)"

text \<open>
  Registering a list of brokers, as the start of the coordinator does with the
  entries of \<open>BROKER_NODES\<close>: one \<open>addNode\<close> after the other.
\<close>

fun addNodes :: "(string \<Rightarrow> nat) \<Rightarrow> hash_ring \<Rightarrow> (string \<times> string) list \<Rightarrow> hash_ring option" where
  "addNodes H r [] = Some r"
| "addNodes H r ((nodeName, u) # rest) =
     (case addNode H r nodeName u of None \<Rightarrow> None | Some r' \<Rightarrow> addNodes H r' rest)"

text \<open>
  Two notions used to state what the walk returns. \<open>clockwise_owners r s\<close> is the
  list of owners met when the sorted positions are read cyclically from index
  \<open>s\<close>; \<open>first_occurrences\<close> keeps the first occurrence of every element of a
  list, in order.
\<close>

definition first_occurrences :: "'a list \<Rightarrow> 'a list" where
  "first_occurrences xs = rev (remdups (rev xs))"

definition clockwise_owners :: "hash_ring \<Rightarrow> nat \<Rightarrow> jsname list" where
  "clockwise_owners r s = map (ring r) (rotate s (sortedPositions r))"

text \<open>
  The rings the class can build: the empty ring of any \<open>virtualNodeCount\<close>,
  closed under \<open>addNode\<close> of any name, registered or not, and under
  \<open>removeNode\<close>.
\<close>

inductive ring_reachable :: "(string \<Rightarrow> nat) \<Rightarrow> hash_ring \<Rightarrow> bool" for H where
  reach_new: "ring_reachable H (new_HashRing v)"
| reach_add: "ring_reachable H r \<Longrightarrow> addNode H r nodeName u = Some r' \<Longrightarrow> ring_reachable H r'"
| reach_remove: "ring_reachable H r \<Longrightarrow> ring_reachable H (removeNode r nodeName)"

text \<open>
  Among them, the rings on which \<open>addNode\<close> was never called for a name that was
  registered at that moment.
\<close>

inductive ring_registered_once :: "(string \<Rightarrow> nat) \<Rightarrow> hash_ring \<Rightarrow> bool" for H where
  once_new: "ring_registered_once H (new_HashRing v)"
| once_add: "ring_registered_once H r \<Longrightarrow> nodeName \<notin> set (getAllNodeNames r) \<Longrightarrow>
     addNode H r nodeName u = Some r' \<Longrightarrow> ring_registered_once H r'"
| once_remove: "ring_registered_once H r \<Longrightarrow> ring_registered_once H (removeNode r nodeName)"

text \<open>
  What holds of every ring the class can build: the array of positions is
  sorted, has no duplicates and holds exactly the keys of the ring Map; the
  positions recorded for a registered broker are owned by it, and there are
  \<open>virtualNodeCount\<close> of them.
\<close>

definition ring_positions_inv :: "hash_ring \<Rightarrow> bool" where
  "ring_positions_inv r \<longleftrightarrow>
     sorted (sortedPositions r) \<and> distinct (sortedPositions r) \<and>
     set (sortedPositions r) = dom (ring r) \<and>
     (\<forall>n d. map_of (nodes r) n = Some d \<longrightarrow>
        (\<forall>p\<in>set (virtualPositions d). ring r p = Some n) \<and>
        length (virtualPositions d) = virtualNodeCount r)"

text \<open>
  What holds in addition when no registered name was added again: the array of positions is sorted,
  has no duplicates and holds exactly the keys of the ring Map; every registered
  name occurs once; the positions recorded for a registered broker are exactly
  the positions it owns, and there are \<open>virtualNodeCount\<close> of them; every owner
  is registered.
\<close>

definition ring_inv :: "hash_ring \<Rightarrow> bool" where
  "ring_inv r \<longleftrightarrow>
     sorted (sortedPositions r) \<and> distinct (sortedPositions r) \<and>
     set (sortedPositions r) = dom (ring r) \<and>
     distinct (map fst (nodes r)) \<and>
     (\<forall>n d. map_of (nodes r) n = Some d \<longrightarrow>
        set (virtualPositions d) = {p. ring r p = Some n} \<and>
        length (virtualPositions d) = virtualNodeCount r) \<and>
     (\<forall>p n. ring r p = Some n \<longrightarrow> n \<in> fst ` set (nodes r))"

section \<open>The health monitor (HealthMonitor, second part of src/consumer/consumer.js)\<close>

datatype health_status = HEALTHY | FAILED | FAILED_OVER | RECOVERED

text \<open>Timestamps are ISO strings; \<open>null\<close> is \<open>None\<close>.\<close>

record node_health =
  status :: health_status
  failCount :: nat
  lastCheck :: "string option"
  lastSuccess :: "string option"
  failedAt :: "string option"

definition initial_health :: node_health where
  "initial_health =
     \<lparr>status = HEALTHY, failCount = 0, lastCheck = None, lastSuccess = None, failedAt = None\<rparr>"

datatype monitor_callback = OnFailure | OnRecovery

text \<open>
  The body of the loop of \<open>_checkAll\<close> for one health record, in its two parts.
  \<open>probe_settled\<close> is what runs once the awaited GET of \<open>/health\<close> has settled:
  the rest of the \<open>try\<close> block when it returned (\<open>ok\<close>), the \<open>catch\<close> block
  when it threw; \<open>t\<close> is the clock. The result is the updated record and the
  callback that was fired, if any. \<open>check_health\<close> is the whole body, from
  \<open>health.lastCheck = ...\<close> on, with one clock value.
\<close>

definition probe_settled ::
  "nat \<Rightarrow> bool \<Rightarrow> string \<Rightarrow> node_health \<Rightarrow> node_health \<times> monitor_callback option" where
  "probe_settled failureThreshold ok t h1 =
     (if ok then
        (if status h1 = FAILED \<or> status h1 = FAILED_OVER
         then (h1\<lparr>status := RECOVERED, failCount := 0, lastSuccess := Some t\<rparr>, Some OnRecovery)
         else (h1\<lparr>status := HEALTHY, failCount := 0, lastSuccess := Some t\<rparr>, None))
      else
        (let h2 = h1\<lparr>failCount := failCount h1 + 1\<rparr> in
         if failCount h2 \<ge> failureThreshold \<and> status h2 = HEALTHY
         then (h2\<lparr>status := FAILED, failedAt := Some t\<rparr>, Some OnFailure)
         else (h2, None)))"

definition check_health ::
  "nat \<Rightarrow> bool \<Rightarrow> string \<Rightarrow> node_health \<Rightarrow> node_health \<times> monitor_callback option" where
  "check_health failureThreshold ok t health =
     (let h1 = health\<lparr>lastCheck := Some t\<rparr> in probe_settled failureThreshold ok t h1)"

text \<open>
  What happens to one health record over time: probes with their results, and
  \<open>markFailedOver\<close> from the failover controller.
\<close>

datatype health_event = Probe bool | MarkFailedOver

fun health_step :: "nat \<Rightarrow> node_health \<Rightarrow> health_event \<Rightarrow> node_health" where
  "health_step failureThreshold health (Probe ok) =
     fst (check_health failureThreshold ok [] health)"
| "health_step failureThreshold health MarkFailedOver = health\<lparr>status := FAILED_OVER\<rparr>"

definition health_run :: "nat \<Rightarrow> node_health \<Rightarrow> health_event list \<Rightarrow> node_health" where
  "health_run failureThreshold health evs = foldl (health_step failureThreshold) health evs"

text \<open>The callbacks fired while a list of events is applied, in order.\<close>

fun health_callbacks :: "nat \<Rightarrow> node_health \<Rightarrow> health_event list \<Rightarrow> monitor_callback list" where
  "health_callbacks failureThreshold health [] = []"
| "health_callbacks failureThreshold health (Probe ok # evs) =
     (case snd (check_health failureThreshold ok [] health) of
        None \<Rightarrow> health_callbacks failureThreshold (health_step failureThreshold health (Probe ok)) evs
      | Some cb \<Rightarrow>
          cb # health_callbacks failureThreshold (health_step failureThreshold health (Probe ok)) evs)"
| "health_callbacks failureThreshold health (MarkFailedOver # evs) =
     health_callbacks failureThreshold (health_step failureThreshold health MarkFailedOver) evs"

text \<open>
  The number of probe failures since the last successful probe (or since the
  start): the consecutive failures accumulated at the end of an event list.
\<close>

fun consecutive_failures :: "health_event list \<Rightarrow> nat" where
  "consecutive_failures [] = 0"
| "consecutive_failures (ev # evs) =
     (if Probe True \<in> set evs then consecutive_failures evs
      else (if ev = Probe False then 1 else 0) + consecutive_failures evs)"

section \<open>The coordinator (first part of src/coordinator/server.js)\<close>

record failover_event =
  failedNode :: string
  promotedNode :: string
  timestamp :: string

text \<open>
  The module state of the coordinator together with the state of its monitor.
  \<open>promotedNodes\<close> is the override Map.
\<close>

record coordinator =
  coord_ring :: hash_ring
  REPLICATION_FACTOR :: int
  failureThreshold :: nat
  nodeHealth :: "(string \<times> node_health) list"
  promotedNodes :: "string \<rightharpoonup> string"
  failoverEvents :: "failover_event list"

text \<open>
  The network and the clock, as seen by one step of the coordinator: the result
  of the monitor's GET of \<open>/health\<close> for a node, the result of the failover
  handler's GET of \<open>/health\<close> for a candidate (given the failed node), the
  error message of the POST of \<open>/promote\<close> to a node (\<open>None\<close> when it succeeds),
  and the time.
\<close>

record world =
  probeOk :: "string \<Rightarrow> bool"
  candidateOk :: "string \<Rightarrow> string \<Rightarrow> bool"
  promoteError :: "string \<Rightarrow> string option"
  now :: string

text \<open>\<open>HealthMonitor.init\<close>, with the module state as initialised in server.js.\<close>

definition start_coordinator :: "hash_ring \<Rightarrow> int \<Rightarrow> nat \<Rightarrow> coordinator" where
  "start_coordinator rg rf threshold =
     \<lparr>coord_ring = rg, REPLICATION_FACTOR = rf, failureThreshold = threshold,
      nodeHealth = foldl (\<lambda>m nodeName. AList.update nodeName initial_health m) [] (getAllNodeNames rg),
      promotedNodes = Map.empty, failoverEvents = []\<rparr>"

definition markFailedOver :: "string \<Rightarrow> coordinator \<Rightarrow> coordinator" where
  "markFailedOver nodeName c =
     (case map_of (nodeHealth c) nodeName of
        None \<Rightarrow> c
      | Some health \<Rightarrow>
          c\<lparr>nodeHealth := AList.update nodeName (health\<lparr>status := FAILED_OVER\<rparr>) (nodeHealth c)\<rparr>)"

text \<open>\<open>Array.prototype.indexOf\<close>: the first index of the element, or \<open>-1\<close>.\<close>

fun indexOf :: "'a list \<Rightarrow> 'a \<Rightarrow> int" where
  "indexOf [] x = -1"
| "indexOf (y # ys) x =
     (if y = x then 0 else (let k = indexOf ys x in if k = -1 then -1 else k + 1))"

text \<open>
  The candidate loop of \<open>onFailure\<close>, for \<open>i\<close> over the given indices. The
  dividend \<open>failedIndex + i\<close> is never negative since \<open>i \<ge> 1\<close>, so \<open>%\<close> is \<open>mod\<close>
  and the index is in range.
\<close>

fun find_candidate :: "(string \<Rightarrow> bool) \<Rightarrow> string list \<Rightarrow> int \<Rightarrow> nat list \<Rightarrow> string option" where
  "find_candidate ok allNodes failedIndex [] = None"
| "find_candidate ok allNodes failedIndex (i # is) =
     (let candidate = allNodes ! nat ((failedIndex + int i) mod int (length allNodes)) in
      if ok candidate then Some candidate
      else find_candidate ok allNodes failedIndex is)"

text \<open>
  The handler \<open>onFailure(failedNode)\<close> is asynchronous: it awaits the GET of
  \<open>/health\<close> of each candidate and then the POST of \<open>/promote\<close>. It is modelled
  in its two parts. \<open>onFailure_select\<close> is the part up to the POST: the candidate
  loop and the test \<open>!promotedNode\<close>, which holds for \<open>null\<close> and for the empty
  string; it gives the candidate to which \<open>/promote\<close> is posted, or \<open>None\<close> when
  the handler returns before. This part reads the list of broker names and the
  network only. \<open>onFailure_tail\<close> is the part that runs once the POST has
  settled: the \<open>catch\<close> block around the POST only logs (logging is not
  modelled) and execution continues after it, so the result of the POST is not
  used.
\<close>

definition onFailure_select :: "(string \<Rightarrow> bool) \<Rightarrow> string \<Rightarrow> coordinator \<Rightarrow> string option" where
  "onFailure_select ok failed c =
     (let allNodes = getAllNodeNames (coord_ring c);
          failedIndex = indexOf allNodes failed
      in case find_candidate ok allNodes failedIndex [1..<length allNodes] of
           None \<Rightarrow> None
         | Some promoted \<Rightarrow> if promoted = [] then None else Some promoted)"

definition onFailure_tail :: "string \<Rightarrow> string \<Rightarrow> string \<Rightarrow> coordinator \<Rightarrow> coordinator" where
  "onFailure_tail t failed promoted c =
     (let c1 = c\<lparr>promotedNodes := (promotedNodes c)(failed \<mapsto> promoted)\<rparr>;
          c2 = markFailedOver failed c1
      in c2\<lparr>failoverEvents := failoverEvents c2 @
               [\<lparr>failedNode = failed, promotedNode = promoted, timestamp = t\<rparr>]\<rparr>)"

text \<open>
  The handler from its call to its end, on the state \<open>c\<close> in which its last part
  runs; \<open>promoteError w promoted\<close>, the result of the POST, does not occur.
\<close>

definition onFailure :: "world \<Rightarrow> string \<Rightarrow> coordinator \<Rightarrow> coordinator" where
  "onFailure w failed c =
     (case onFailure_select (candidateOk w failed) failed c of
        None \<Rightarrow> c
      | Some promoted \<Rightarrow> onFailure_tail (now w) failed promoted c)"

text \<open>
  The coordinator at run time: the module state, and the invocations of
  \<open>onFailure\<close> that are suspended at the POST of \<open>/promote\<close>, each with its failed
  node and its candidate. \<open>_checkAll\<close> calls the handler without \<open>await\<close>, and the
  POST has no timeout, so such an invocation may stay suspended over any number
  of probes and rounds, or for ever.
\<close>

record system =
  coord :: coordinator
  pendingPromotes :: "(string \<times> string) list"

text \<open>
  The steps in which the module state changes. Between them the coordinator can
  serve any request.
  \<^item> \<open>probe_starts\<close>: an iteration of the loop of \<open>_checkAll\<close> up to its
    \<open>await\<close>; \<open>!url\<close> holds for \<open>undefined\<close> and for the empty string.
  \<^item> \<open>probe_settles\<close>: the rest of that iteration, once the GET has settled. When
    \<open>onFailure\<close> is called, the part of the handler up to the POST of \<open>/promote\<close>
    is taken with this step, as it changes nothing in the state; \<open>onRecovery\<close>
    only logs.
  \<^item> \<open>promote_settles\<close>: the POST of the \<open>i\<close>-th suspended invocation settles, with
    the result \<open>promoteError w promoted\<close>, and the rest of the handler runs.
  The relation does not ask that a probe starts before it settles, or that the
  probes of a round follow each other: it holds every state the source reaches.
\<close>

definition probe_starts :: "world \<Rightarrow> string \<Rightarrow> system \<Rightarrow> system" where
  "probe_starts w nodeName s =
     (case map_of (nodeHealth (coord s)) nodeName of
        None \<Rightarrow> s
      | Some health \<Rightarrow>
          (case getNodeUrl (coord_ring (coord s)) nodeName of
             None \<Rightarrow> s
           | Some u \<Rightarrow>
               if u = [] then s
               else s\<lparr>coord := (coord s)\<lparr>nodeHealth :=
                        AList.update nodeName (health\<lparr>lastCheck := Some (now w)\<rparr>)
                          (nodeHealth (coord s))\<rparr>\<rparr>))"

definition probe_settles :: "world \<Rightarrow> string \<Rightarrow> system \<Rightarrow> system" where
  "probe_settles w nodeName s =
     (case map_of (nodeHealth (coord s)) nodeName of
        None \<Rightarrow> s
      | Some health \<Rightarrow>
          (case getNodeUrl (coord_ring (coord s)) nodeName of
             None \<Rightarrow> s
           | Some u \<Rightarrow>
               if u = [] then s
               else
                 (case probe_settled (failureThreshold (coord s)) (probeOk w nodeName) (now w) health of
                    (health', cb) \<Rightarrow>
                      (let c1 = (coord s)\<lparr>nodeHealth :=
                                  AList.update nodeName health' (nodeHealth (coord s))\<rparr>
                       in case cb of
                            Some OnFailure \<Rightarrow>
                              (case onFailure_select (candidateOk w nodeName) nodeName c1 of
                                 None \<Rightarrow> s\<lparr>coord := c1\<rparr>
                               | Some promoted \<Rightarrow>
                                   s\<lparr>coord := c1,
                                     pendingPromotes := pendingPromotes s @ [(nodeName, promoted)]\<rparr>)
                          | Some OnRecovery \<Rightarrow> s\<lparr>coord := c1\<rparr>
                          | None \<Rightarrow> s\<lparr>coord := c1\<rparr>))))"

definition promote_settles :: "world \<Rightarrow> nat \<Rightarrow> system \<Rightarrow> system" where
  "promote_settles w i s =
     (if i < length (pendingPromotes s) then
        (case pendingPromotes s ! i of
           (failed, promoted) \<Rightarrow>
             s\<lparr>coord := onFailure_tail (now w) failed promoted (coord s),
               pendingPromotes := take i (pendingPromotes s) @ drop (Suc i) (pendingPromotes s)\<rparr>)
      else s)"

datatype coord_step = ProbeStarts world string | ProbeSettles world string | PromoteSettles world nat

fun step :: "system \<Rightarrow> coord_step \<Rightarrow> system" where
  "step s (ProbeStarts w nodeName) = probe_starts w nodeName s"
| "step s (ProbeSettles w nodeName) = probe_settles w nodeName s"
| "step s (PromoteSettles w i) = promote_settles w i s"

definition run_steps :: "system \<Rightarrow> coord_step list \<Rightarrow> system" where
  "run_steps s steps = foldl step s steps"

text \<open>
  The steps of one call of \<open>_checkAll\<close> during which nothing else happens: for
  each health record in turn, the probe starts and settles.
\<close>

definition checkAll_steps :: "world \<Rightarrow> coordinator \<Rightarrow> coord_step list" where
  "checkAll_steps w c =
     concat (map (\<lambda>nodeName. [ProbeStarts w nodeName, ProbeSettles w nodeName]) (map fst (nodeHealth c)))"

definition start_system :: "hash_ring \<Rightarrow> int \<Rightarrow> nat \<Rightarrow> system" where
  "start_system rg rf threshold =
     \<lparr>coord = start_coordinator rg rf threshold, pendingPromotes = []\<rparr>"

text \<open>
  The states of the coordinator: the start state over a ring whose Map of nodes
  holds each name once, and any number of steps, in any order and each in its own
  world.
\<close>

inductive coord_reachable :: "system \<Rightarrow> bool" where
  reach_start: "distinct (getAllNodeNames rg) \<Longrightarrow> coord_reachable (start_system rg rf threshold)"
| reach_step: "coord_reachable s \<Longrightarrow> coord_reachable (step s st)"


text \<open>
  \<open>resolveEffectivePrimary\<close>: \<open>promotedNodes.get(primary) || primary\<close>. The
  right operand is taken when the Map has no entry and when the entry is the
  empty string. The keys of the Map are strings, so \<open>undefined\<close> has no entry.
\<close>

definition resolveEffectivePrimary :: "(string \<rightharpoonup> string) \<Rightarrow> jsname \<Rightarrow> jsname" where
  "resolveEffectivePrimary promoted p =
     (case p of
        None \<Rightarrow> None
      | Some name \<Rightarrow>
          (case promoted name of
             None \<Rightarrow> Some name
           | Some q \<Rightarrow> if q = [] then Some name else Some q))"

text \<open>\<open>ring.getNodeUrl\<close> on a value that may be \<open>undefined\<close>.\<close>

definition getNodeUrl_js :: "hash_ring \<Rightarrow> jsname \<Rightarrow> string option" where
  "getNodeUrl_js r n = (case n of None \<Rightarrow> None | Some name \<Rightarrow> getNodeUrl r name)"

text \<open>
  The routing part of the handler of POST \<open>/produce\<close>, from the call of
  \<open>getNodesForKey\<close> to \<open>replicaUrls\<close>. \<open>filter(Boolean)\<close> drops \<open>undefined\<close>
  and the empty string. The result is what is sent to the primary: its URL and
  the \<open>replicateTo\<close> list, with the names reported to the producer.
\<close>

record produce_plan =
  plan_primary :: jsname
  plan_replicas :: "jsname list"
  plan_primaryUrl :: "string option"
  plan_replicateTo :: "string list"

definition produce_route :: "(string \<Rightarrow> nat) \<Rightarrow> coordinator \<Rightarrow> js_value \<Rightarrow> ring_error + produce_plan" where
  "produce_route H c key =
     (case getNodesForKey H (coord_ring c) key (REPLICATION_FACTOR c) of
        Inl e \<Rightarrow> Inl e
      | Inr kn \<Rightarrow>
          (let rawPrimary = primary kn;
               rawReplicas = replicas kn;
               p = resolveEffectivePrimary (promotedNodes c) rawPrimary;
               reps = filter (\<lambda>n. n \<noteq> p) (map (resolveEffectivePrimary (promotedNodes c)) rawReplicas);
               primaryUrl = getNodeUrl_js (coord_ring c) p;
               replicaUrls = concat (map (\<lambda>n. case getNodeUrl_js (coord_ring c) n of
                                                 None \<Rightarrow> []
                                               | Some u \<Rightarrow> if u = [] then [] else [u]) reps)
           in Inr \<lparr>plan_primary = p, plan_replicas = reps,
                   plan_primaryUrl = primaryUrl, plan_replicateTo = replicaUrls\<rparr>))"

text \<open>
  The handler of POST \<open>/produce\<close> up to the POST of \<open>/store\<close> to the primary:
  the validation \<open>!key || payload === undefined\<close>, which answers 400; the
  routing, in which \<open>getNodesForKey\<close> may throw; and what is sent to the primary.
\<close>

datatype produce_outcome = Produce400 | ProduceThrows ring_error | ProduceStore produce_plan

definition produce :: "(string \<Rightarrow> nat) \<Rightarrow> coordinator \<Rightarrow> js_value \<Rightarrow> js_value \<Rightarrow> produce_outcome" where
  "produce H c key pl =
     (if \<not> truthy key \<or> pl = JUndefined then Produce400
      else (case produce_route H c key of
              Inl e \<Rightarrow> ProduceThrows e
            | Inr plan \<Rightarrow> ProduceStore plan))"

section \<open>The broker (src/unnamed/part_000)\<close>

record message_entry =
  payload :: string
  stored_at :: string
  role :: string
  replicaOf :: "string option"

record replication_result =
  rr_node :: string
  rr_status :: string
  rr_error :: "string option"

datatype log_entry =
  StoredAsPrimary string string "string list" "replication_result list" string
| StoredAsReplica string string string string
| PromotedToPrimary string

record broker =
  messageStore :: "string \<rightharpoonup> message_entry"
  replicationLog :: "log_entry list"

text \<open>
  The body of a POST \<open>/store\<close>: the fields may be missing (\<open>None\<close>); the payload
  is kept as its JSON text.
\<close>

record store_request =
  req_key :: "string option"
  req_payload :: "string option"
  req_replicateTo :: "string list option"

record store_body =
  success :: bool
  node :: string
  body_role :: string
  body_key :: string
  replicatedTo :: "string list"
  replicationResults :: "replication_result list"

datatype store_response = Status400 | Status201 store_body

text \<open>
  What the handler does to the outside and to the store, in the order in which
  it does it.
\<close>

datatype store_action = LocalWrite string string | ReplicatePost string string

text \<open>
  The replication loop of \<open>/store\<close>. \<open>post i replicaUrl\<close> is the error message of
  the \<open>i\<close>-th POST of \<open>/replicate\<close> (\<open>None\<close> when it succeeds); the index is
  there because the same URL may be listed twice.
\<close>

fun replicate_loop ::
  "(nat \<Rightarrow> string \<Rightarrow> string option) \<Rightarrow> string \<Rightarrow> nat \<Rightarrow> string list
    \<Rightarrow> replication_result list \<times> store_action list" where
  "replicate_loop post key i [] = ([], [])"
| "replicate_loop post key i (replicaUrl # rest) =
     (let res = (case post i replicaUrl of
                   None \<Rightarrow> \<lparr>rr_node = replicaUrl, rr_status = ''success'', rr_error = None\<rparr>
                 | Some msg \<Rightarrow> \<lparr>rr_node = replicaUrl, rr_status = ''failed'', rr_error = Some msg\<rparr>);
          (results, acts) = replicate_loop post key (i + 1) rest
      in (res # results, ReplicatePost replicaUrl key # acts))"

text \<open>
  The handler of POST \<open>/store\<close> on the broker \<open>NODE_ID\<close>: the new state of the
  broker, the response, and the actions in order. \<open>!key\<close> holds for a missing
  key and for the empty string.
\<close>

definition store ::
  "string \<Rightarrow> (nat \<Rightarrow> string \<Rightarrow> string option) \<Rightarrow> string \<Rightarrow> store_request \<Rightarrow> broker
    \<Rightarrow> broker \<times> store_response \<times> store_action list" where
  "store NODE_ID post t req b =
     (case (req_key req, req_payload req) of
        (Some key, Some pl) \<Rightarrow>
          if key = [] then (b, Status400, [])
          else
            (let replicateTo = (case req_replicateTo req of None \<Rightarrow> [] | Some urls \<Rightarrow> urls);
                 b1 = b\<lparr>messageStore := (messageStore b)
                         (key \<mapsto> \<lparr>payload = pl, stored_at = t, role = ''primary'', replicaOf = None\<rparr>)\<rparr>;
                 (results, acts) = replicate_loop post key 0 replicateTo;
                 b2 = b1\<lparr>replicationLog := replicationLog b1 @
                           [StoredAsPrimary key pl replicateTo results t]\<rparr>
             in (b2,
                 Status201 \<lparr>success = True, node = NODE_ID, body_role = ''primary'', body_key = key,
                            replicatedTo = replicateTo, replicationResults = results\<rparr>,
                 LocalWrite key ''primary'' # acts))
      | _ \<Rightarrow> (b, Status400, []))"

section \<open>A concrete ring\<close>

text \<open>
  The values of \<open>parseInt(sha256hex(s).substring(0, 8), 16)\<close> on the labels and
  keys used in the examples below (the three brokers of the coordinator's
  configuration comment, two virtual nodes each, four of the producer's keys, and
  two broker labels on which the value is the same). The value on any other
  string is not used.
\<close>

definition sha256_prefix :: "string \<Rightarrow> nat" where
  "sha256_prefix s =
     (if s = ''node-a:vnode0'' then 3546466279
      else if s = ''node-a:vnode1'' then 13088593
      else if s = ''node-b:vnode0'' then 705976468
      else if s = ''node-b:vnode1'' then 2993720670
      else if s = ''node-c:vnode0'' then 130114837
      else if s = ''node-c:vnode1'' then 402340130
      else if s = ''order_1'' then 184036158
      else if s = ''order_3'' then 3167183801
      else if s = ''payment_1'' then 474173326
      else if s = ''user_signup_5'' then 3918100705
      else if s = ''node-12574:vnode0'' then 158148131
      else if s = ''node-29843:vnode0'' then 158148131
      else 0)"

text \<open>
  The rings \<open>new HashRing(2)\<close> after \<open>addNode\<close> of node-a, then of node-b, then of
  node-c (lemma \<open>demo_ring_built\<close>).
\<close>

definition demo_ring_a :: hash_ring where
  "demo_ring_a =
     \<lparr>virtualNodeCount = 2,
      ring = [3546466279 \<mapsto> ''node-a'', 13088593 \<mapsto> ''node-a''],
      sortedPositions = [13088593, 3546466279],
      nodes = [(''node-a'', \<lparr>url = ''http://node-a:5000'', virtualPositions = [3546466279, 13088593]\<rparr>)]\<rparr>"

definition demo_ring_ab :: hash_ring where
  "demo_ring_ab =
     \<lparr>virtualNodeCount = 2,
      ring = [3546466279 \<mapsto> ''node-a'', 13088593 \<mapsto> ''node-a'',
              705976468 \<mapsto> ''node-b'', 2993720670 \<mapsto> ''node-b''],
      sortedPositions = [13088593, 705976468, 2993720670, 3546466279],
      nodes = [(''node-a'', \<lparr>url = ''http://node-a:5000'', virtualPositions = [3546466279, 13088593]\<rparr>),
               (''node-b'', \<lparr>url = ''http://node-b:5000'', virtualPositions = [705976468, 2993720670]\<rparr>)]\<rparr>"

definition demo_ring :: hash_ring where
  "demo_ring =
     \<lparr>virtualNodeCount = 2,
      ring = [3546466279 \<mapsto> ''node-a'', 13088593 \<mapsto> ''node-a'',
              705976468 \<mapsto> ''node-b'', 2993720670 \<mapsto> ''node-b'',
              130114837 \<mapsto> ''node-c'', 402340130 \<mapsto> ''node-c''],
      sortedPositions = [13088593, 130114837, 402340130, 705976468, 2993720670, 3546466279],
      nodes = [(''node-a'', \<lparr>url = ''http://node-a:5000'', virtualPositions = [3546466279, 13088593]\<rparr>),
               (''node-b'', \<lparr>url = ''http://node-b:5000'', virtualPositions = [705976468, 2993720670]\<rparr>),
               (''node-c'', \<lparr>url = ''http://node-c:5000'', virtualPositions = [130114837, 402340130]\<rparr>)]\<rparr>"

text \<open>
  A ring with one virtual node per broker in which node-29843 sits one position
  after the hash of its label: it was registered after node-12574, whose label has
  the same hash, and node-12574 has been removed since (lemma
  \<open>collision_ring_registered_once\<close>).
\<close>

definition collision_ring_both :: hash_ring where
  "collision_ring_both =
     \<lparr>virtualNodeCount = 1,
      ring = [158148131 \<mapsto> ''node-12574'', 158148132 \<mapsto> ''node-29843''],
      sortedPositions = [158148131, 158148132],
      nodes = [(''node-12574'', \<lparr>url = ''http://node-12574:5000'', virtualPositions = [158148131]\<rparr>),
               (''node-29843'', \<lparr>url = ''http://node-29843:5000'', virtualPositions = [158148132]\<rparr>)]\<rparr>"

definition collision_ring :: hash_ring where
  "collision_ring =
     \<lparr>virtualNodeCount = 1,
      ring = [158148132 \<mapsto> ''node-29843''],
      sortedPositions = [158148132],
      nodes = [(''node-29843'', \<lparr>url = ''http://node-29843:5000'', virtualPositions = [158148132]\<rparr>)]\<rparr>"

definition collision_ring_readded :: hash_ring where
  "collision_ring_readded =
     \<lparr>virtualNodeCount = 1,
      ring = [158148131 \<mapsto> ''node-29843''],
      sortedPositions = [158148131],
      nodes = [(''node-29843'', \<lparr>url = ''http://node-29843:5000'', virtualPositions = [158148131]\<rparr>)]\<rparr>"

text \<open>
  The coordinator of server.js over \<open>demo_ring\<close> (replication factor 3, failure
  threshold 3), and four worlds: node-a does not answer and the POST of
  \<open>/promote\<close> fails; node-a does not answer; node-b does not answer; node-a and
  node-b do not answer.
\<close>

definition demo_start :: coordinator where
  "demo_start = start_coordinator demo_ring 3 3"

definition world_a_down_promote_fails :: world where
  "world_a_down_promote_fails =
     \<lparr>probeOk = (\<lambda>n. n \<noteq> ''node-a''), candidateOk = (\<lambda>failed n. n \<noteq> ''node-a''),
      promoteError = (\<lambda>n. Some ''connect ECONNREFUSED''), now = ''2026-01-01T00:00:00.000Z''\<rparr>"

definition world_a_down :: world where
  "world_a_down =
     \<lparr>probeOk = (\<lambda>n. n \<noteq> ''node-a''), candidateOk = (\<lambda>failed n. n \<noteq> ''node-a''),
      promoteError = (\<lambda>n. None), now = ''2026-01-01T00:00:00.000Z''\<rparr>"

definition world_b_down :: world where
  "world_b_down =
     \<lparr>probeOk = (\<lambda>n. n \<noteq> ''node-b''), candidateOk = (\<lambda>failed n. n \<noteq> ''node-b''),
      promoteError = (\<lambda>n. None), now = ''2026-01-01T00:00:00.000Z''\<rparr>"


definition demo_system :: system where
  "demo_system = start_system demo_ring 3 3"

text \<open>
  The state after two rounds in which node-a did not answer, and the state after
  a third such round: node-a has been declared FAILED and the handler is suspended
  at the POST of \<open>/promote\<close> to node-b.
\<close>

definition demo_a_failing :: system where
  "demo_a_failing =
     run_steps demo_system
       (checkAll_steps world_a_down_promote_fails demo_start @
        checkAll_steps world_a_down_promote_fails demo_start)"

definition demo_a_failed :: system where
  "demo_a_failed = run_steps demo_a_failing (checkAll_steps world_a_down_promote_fails demo_start)"

text \<open>
  The state after three rounds in which node-b did not answer and the POST of
  \<open>/promote\<close> of the handler has settled.
\<close>

definition demo_b_failed_over :: system where
  "demo_b_failed_over =
     run_steps demo_system
       (checkAll_steps world_b_down demo_start @ checkAll_steps world_b_down demo_start @
        checkAll_steps world_b_down demo_start @ [PromoteSettles world_b_down 0])"


text \<open>
  The state after three rounds in which only node-a answered, and the POSTs of
  the handlers for node-b and for node-c have settled: node-a has been promoted
  in place of both.
\<close>

definition world_bc_down :: world where
  "world_bc_down =
     \<lparr>probeOk = (\<lambda>n. n = ''node-a''), candidateOk = (\<lambda>failed n. n = ''node-a''),
      promoteError = (\<lambda>n. None), now = ''2026-01-01T00:00:00.000Z''\<rparr>"

definition demo_bc_failed_over :: system where
  "demo_bc_failed_over =
     run_steps demo_system
       (checkAll_steps world_bc_down demo_start @ checkAll_steps world_bc_down demo_start @
        checkAll_steps world_bc_down demo_start @
        [PromoteSettles world_bc_down 0, PromoteSettles world_bc_down 0])"





section \<open>Evaluation on concrete inputs\<close>

lemma hashSpace_num: "hashSpace = 4294967296"
  by (simp add: hashSpace_def)

lemma probe_eval:
  "probe rg p fuel =
     (if fuel = 0 then None
      else if rg p \<noteq> None then probe rg ((p + 1) mod hashSpace) (fuel - 1) else Some p)"
  by (cases fuel) simp_all

lemma string_of_nat_0: "string_of_nat 0 = ''0''"
  by code_simp

lemma string_of_nat_1: "string_of_nat 1 = ''1''"
  by code_simp

lemma vnode_label_small:
  "vnode_label n 0 = n @ '':vnode0''"
  "vnode_label n (Suc 0) = n @ '':vnode1''"
  using string_of_nat_0 string_of_nat_1 by (simp_all add: vnode_label_def)

lemma upt_2: "[0..<2] = [0, Suc 0]"
  by (simp add: numeral_2_eq_2)

lemmas ring_eval =
  addNode_def removeNode_def new_HashRing_def upt_2 vnode_label_small hash_def sha256_prefix_def
  hashSpace_num probe_eval getNodesForKey_def findClockwiseIndex_def findClockwise_loop.simps
  getNodes_loop.simps Let_def

section \<open>Properties of the ring\<close>

text \<open>
  C8, as amended. \<open>getNodesForKey\<close> throws \<open>Error('Hash ring is empty')\<close> exactly
  when no broker is registered, whatever the key and the replication factor. On
  a ring with a registered broker it throws exactly when the key is not a string
  (the \<open>TypeError\<close> of the digest), and returns for every string key and every
  replication factor.
\<close>

theorem getNodesForKey_raises_iff:
  "(getNodesForKey H r key replicationFactor = Inl RingEmpty \<longleftrightarrow> nodes r = []) \<and>
   (getNodesForKey H r key replicationFactor = Inl HashTypeError \<longleftrightarrow>
      nodes r \<noteq> [] \<and> \<not> isString key) \<and>
   ((\<exists>kn. getNodesForKey H r key replicationFactor = Inr kn) \<longleftrightarrow>
      nodes r \<noteq> [] \<and> isString key)"
  by (cases key) (simp_all add: getNodesForKey_def Let_def)

text \<open>
  C8 as stated fails. On the ring \<open>demo_ring\<close>, which has three registered
  brokers, \<open>getNodesForKey\<close> throws for the key 42, a number; POST \<open>/produce\<close>
  with the body \<open>{key: 42, payload: {}}\<close> passes the validation and reaches that
  call.
\<close>

theorem getNodesForKey_raises_counterexample:
  "getAllNodeNames demo_ring = [''node-a'', ''node-b'', ''node-c''] \<and>
   getNodesForKey sha256_prefix demo_ring (JNumber 42) 3 = Inl HashTypeError \<and>
   produce sha256_prefix demo_start (JNumber 42) JObject = ProduceThrows HashTypeError"
  by (simp add: getNodesForKey_def produce_def produce_route_def demo_start_def
        start_coordinator_def getAllNodeNames_def demo_ring_def)

lemma probe_free: "probe rg p fuel = Some q \<Longrightarrow> rg q = None"
  by (induction fuel arbitrary: p) (auto split: if_splits)

text \<open>
  The fuel of \<open>probe\<close> is exact: started below \<open>hashSpace\<close> with \<open>hashSpace\<close>
  steps, the loop gives up only when every position of the hash space is taken,
  which is when the loop of the source runs forever.
\<close>

lemma probe_None_visits:
  "probe rg p fuel = None \<Longrightarrow> p < hashSpace \<Longrightarrow> k < fuel \<Longrightarrow> rg ((p + k) mod hashSpace) \<noteq> None"
proof (induction fuel arbitrary: p k)
  case 0
  then show ?case by simp
next
  case (Suc fuel)
  from Suc.prems(1) have taken: "rg p \<noteq> None"
    and rest: "probe rg ((p + 1) mod hashSpace) fuel = None"
    by (auto split: if_splits)
  show ?case
  proof (cases k)
    case 0
    with taken Suc.prems(2) show ?thesis by simp
  next
    case (Suc k')
    with Suc.prems(3) have k': "k' < fuel" by simp
    have lt: "(p + 1) mod hashSpace < hashSpace" by (simp add: hashSpace_def)
    from Suc.IH[OF rest lt k'] have "rg (((p + 1) mod hashSpace + k') mod hashSpace) \<noteq> None" .
    moreover have "((p + 1) mod hashSpace + k') mod hashSpace = (p + k) mod hashSpace"
      using Suc by (simp add: mod_add_left_eq)
    ultimately show ?thesis by simp
  qed
qed

lemma probe_None_full:
  assumes "probe rg p hashSpace = None" "p < hashSpace" "q < hashSpace"
  shows "rg q \<noteq> None"
proof -
  define k where "k = (q + hashSpace - p) mod hashSpace"
  have k: "k < hashSpace" by (simp add: k_def hashSpace_def)
  have "(p + k) mod hashSpace = (p + (q + hashSpace - p)) mod hashSpace"
    by (simp add: k_def mod_add_right_eq)
  also have "\<dots> = (q + hashSpace) mod hashSpace" using assms(2) by simp
  also have "\<dots> = q" using assms(3) by simp
  finally have "(p + k) mod hashSpace = q" .
  with probe_None_visits[OF assms(1,2) k] show ?thesis by simp
qed

lemma probe_returns:
  "p < hashSpace \<Longrightarrow> q < hashSpace \<Longrightarrow> rg q = None \<Longrightarrow> \<exists>position. probe rg p hashSpace = Some position"
  using probe_None_full[of rg p q] by (cases "probe rg p hashSpace") auto

lemma addNode_loop_spec:
  "addNode_loop H n is (rg, vps, sps) = Some (rg', vps', sps') \<Longrightarrow>
   \<exists>new. vps' = vps @ new \<and> sps' = sps @ new \<and> length new = length is \<and> distinct new \<and>
         set new \<inter> dom rg = {} \<and> rg' = (\<lambda>p. if p \<in> set new then Some n else rg p)"
proof (induction "is" arbitrary: rg vps sps)
  case Nil
  then show ?case by auto
next
  case (Cons i "is")
  from Cons.prems obtain q where q: "probe rg (hash H (vnode_label n i)) hashSpace = Some q"
    and rest: "addNode_loop H n is (rg(q \<mapsto> n), vps @ [q], sps @ [q]) = Some (rg', vps', sps')"
    by (auto split: option.splits)
  from Cons.IH[OF rest] obtain new where new:
    "vps' = (vps @ [q]) @ new" "sps' = (sps @ [q]) @ new" "length new = length is" "distinct new"
    "set new \<inter> dom (rg(q \<mapsto> n)) = {}" "rg' = (\<lambda>p. if p \<in> set new then Some n else (rg(q \<mapsto> n)) p)"
    by blast
  have free: "rg q = None" using q by (rule probe_free)
  have qn: "q \<notin> set new" using new(5) by auto
  have "vps' = vps @ (q # new)" "sps' = sps @ (q # new)" "length (q # new) = length (i # is)"
    using new by simp_all
  moreover have "distinct (q # new)" using new(4) qn by simp
  moreover have "set (q # new) \<inter> dom rg = {}" using new(5) free by auto
  moreover have "rg' = (\<lambda>p. if p \<in> set (q # new) then Some n else rg p)"
    using new(6) by (auto simp: fun_eq_iff)
  ultimately show ?case by blast
qed

lemma removeNode_loop_spec:
  "removeNode_loop ps (rg, sps) = (rg', sps') \<Longrightarrow> sorted sps \<Longrightarrow> distinct sps \<Longrightarrow>
   rg' = (\<lambda>p. if p \<in> set ps then None else rg p) \<and> sorted sps' \<and> distinct sps' \<and>
   set sps' = set sps - set ps"
proof (induction ps arbitrary: rg sps)
  case Nil
  then show ?case by auto
next
  case (Cons q ps)
  from Cons.prems(1) have rest: "removeNode_loop ps (rg(q := None), remove1 q sps) = (rg', sps')"
    by simp
  have "sorted (remove1 q sps)" "distinct (remove1 q sps)"
    using Cons.prems by (simp_all add: sorted_remove1)
  from Cons.IH[OF rest this] Cons.prems(3) show ?case
    by (auto simp: fun_eq_iff)
qed


lemma map_of_update_fresh:
  "map_of (AList.update k v al) = (map_of al)(k \<mapsto> v)"
  by (rule update_conv')




lemma ring_registered_once_reachable: "ring_registered_once H r \<Longrightarrow> ring_reachable H r"
  by (induction rule: ring_registered_once.induct) (auto intro: ring_reachable.intros)

lemma ring_positions_inv_new: "ring_positions_inv (new_HashRing v)"
  by (simp add: ring_positions_inv_def new_HashRing_def)

lemma ring_positions_inv_addNode:
  assumes inv: "ring_positions_inv r" and add: "addNode H r nodeName u = Some r'"
  shows "ring_positions_inv r'"
proof -
  from add obtain rg' vps' sps' where
    loop: "addNode_loop H nodeName [0..<virtualNodeCount r] (ring r, [], sortedPositions r) = Some (rg', vps', sps')"
    and r': "r' = r\<lparr>ring := rg', sortedPositions := sort sps',
                  nodes := AList.update nodeName \<lparr>url = u, virtualPositions = vps'\<rparr> (nodes r)\<rparr>"
    by (auto simp: addNode_def split: option.splits)
  from addNode_loop_spec[OF loop] obtain new where new:
    "vps' = new" "sps' = sortedPositions r @ new" "length new = virtualNodeCount r" "distinct new"
    "set new \<inter> dom (ring r) = {}" "rg' = (\<lambda>p. if p \<in> set new then Some nodeName else ring r p)"
    by auto
  from inv have sp: "sorted (sortedPositions r)" "distinct (sortedPositions r)"
      "set (sortedPositions r) = dom (ring r)"
    and own: "\<And>n d p. map_of (nodes r) n = Some d \<Longrightarrow> p \<in> set (virtualPositions d) \<Longrightarrow>
        ring r p = Some n"
    and len: "\<And>n d. map_of (nodes r) n = Some d \<Longrightarrow> length (virtualPositions d) = virtualNodeCount r"
    by (auto simp: ring_positions_inv_def)
  have 1: "sorted (sortedPositions r')" by (simp add: r')
  have 2: "distinct (sortedPositions r')"
    using sp new by (auto simp: r')
  have 3: "set (sortedPositions r') = dom (ring r')"
    using sp new by (auto simp: r' dom_def)
  have 4: "\<forall>n d. map_of (nodes r') n = Some d \<longrightarrow>
        (\<forall>p\<in>set (virtualPositions d). ring r' p = Some n) \<and>
        length (virtualPositions d) = virtualNodeCount r'"
  proof (intro allI impI)
    fix n d assume nd: "map_of (nodes r') n = Some d"
    show "(\<forall>p\<in>set (virtualPositions d). ring r' p = Some n) \<and>
        length (virtualPositions d) = virtualNodeCount r'"
    proof (cases "n = nodeName")
      case True
      with nd have "d = \<lparr>url = u, virtualPositions = new\<rparr>"
        by (simp add: r' update_conv' new)
      then show ?thesis using True new by (auto simp: r')
    next
      case False
      with nd have old: "map_of (nodes r) n = Some d" by (simp add: r' update_conv')
      have "\<forall>p\<in>set (virtualPositions d). ring r' p = Some n"
      proof
        fix p assume p: "p \<in> set (virtualPositions d)"
        from own[OF old p] have o: "ring r p = Some n" .
        then have "p \<notin> set new" using new(5) by auto
        with o show "ring r' p = Some n" by (simp add: r' new(6))
      qed
      with len[OF old] show ?thesis by (simp add: r')
    qed
  qed
  show ?thesis unfolding ring_positions_inv_def using 1 2 3 4 by blast
qed

lemma ring_positions_inv_removeNode:
  assumes inv: "ring_positions_inv r"
  shows "ring_positions_inv (removeNode r nodeName)"
proof (cases "map_of (nodes r) nodeName")
  case None
  then show ?thesis using inv by (simp add: removeNode_def)
next
  case (Some d)
  obtain rg' sps' where loop: "removeNode_loop (virtualPositions d) (ring r, sortedPositions r) = (rg', sps')"
    by (cases "removeNode_loop (virtualPositions d) (ring r, sortedPositions r)")
  define r' where "r' = r\<lparr>ring := rg', sortedPositions := sps', nodes := AList.delete nodeName (nodes r)\<rparr>"
  have eq: "removeNode r nodeName = r'" using Some loop by (simp add: removeNode_def r'_def)
  from inv have sp: "sorted (sortedPositions r)" "distinct (sortedPositions r)"
      "set (sortedPositions r) = dom (ring r)"
    and own: "\<And>n d p. map_of (nodes r) n = Some d \<Longrightarrow> p \<in> set (virtualPositions d) \<Longrightarrow>
        ring r p = Some n"
    and len: "\<And>n d. map_of (nodes r) n = Some d \<Longrightarrow> length (virtualPositions d) = virtualNodeCount r"
    by (auto simp: ring_positions_inv_def)
  from removeNode_loop_spec[OF loop sp(1,2)] have rl:
    "rg' = (\<lambda>p. if p \<in> set (virtualPositions d) then None else ring r p)"
    "sorted sps'" "distinct sps'" "set sps' = set (sortedPositions r) - set (virtualPositions d)"
    by simp_all
  have 3: "set (sortedPositions r') = dom (ring r')"
    using rl sp(3) by (auto simp: r'_def dom_def split: if_splits)
  have 4: "\<forall>n e. map_of (nodes r') n = Some e \<longrightarrow>
        (\<forall>p\<in>set (virtualPositions e). ring r' p = Some n) \<and>
        length (virtualPositions e) = virtualNodeCount r'"
  proof (intro allI impI)
    fix n e assume nd: "map_of (nodes r') n = Some e"
    then have ne: "n \<noteq> nodeName" and old: "map_of (nodes r) n = Some e"
      by (auto simp: r'_def delete_conv' split: if_splits)
    have "\<forall>p\<in>set (virtualPositions e). ring r' p = Some n"
    proof
      fix p assume p: "p \<in> set (virtualPositions e)"
      from own[OF old p] have o: "ring r p = Some n" .
      have "p \<notin> set (virtualPositions d)"
      proof
        assume "p \<in> set (virtualPositions d)"
        from own[OF Some this] o ne show False by simp
      qed
      with o show "ring r' p = Some n" by (simp add: r'_def rl(1))
    qed
    with len[OF old] show "(\<forall>p\<in>set (virtualPositions e). ring r' p = Some n) \<and>
        length (virtualPositions e) = virtualNodeCount r'" by (simp add: r'_def)
  qed
  show ?thesis unfolding eq ring_positions_inv_def using rl(2,3) 3 4 by (simp add: r'_def)
qed

lemma ring_reachable_inv: "ring_reachable H r \<Longrightarrow> ring_positions_inv r"
  by (induction rule: ring_reachable.induct)
     (auto intro: ring_positions_inv_new ring_positions_inv_addNode ring_positions_inv_removeNode)

lemma ring_positions_nonempty:
  assumes "ring_positions_inv r" "0 < virtualNodeCount r" "nodes r \<noteq> []"
  shows "sortedPositions r \<noteq> []"
proof -
  from assms(3) obtain n d rest where nd: "nodes r = (n, d) # rest"
    by (cases "nodes r") auto
  then have m: "map_of (nodes r) n = Some d" by simp
  with assms(1,2) have "length (virtualPositions d) > 0"
    by (simp add: ring_positions_inv_def)
  then obtain p where p: "p \<in> set (virtualPositions d)"
    by (cases "virtualPositions d") auto
  with m assms(1) have "ring r p = Some n" by (auto simp: ring_positions_inv_def)
  then have "p \<in> dom (ring r)" by auto
  with assms(1) have "p \<in> set (sortedPositions r)" by (simp add: ring_positions_inv_def)
  then show ?thesis by auto
qed

lemma findClockwise_loop_stop: "\<not> left < right \<Longrightarrow> findClockwise_loop sps k left right = left"
  by (subst findClockwise_loop.simps) simp

lemma findClockwise_loop_right: "left < right \<Longrightarrow> sps ! ((left + right) div 2) < k \<Longrightarrow>
  findClockwise_loop sps k left right = findClockwise_loop sps k ((left + right) div 2 + 1) right"
  by (subst findClockwise_loop.simps) (simp add: Let_def)

lemma findClockwise_loop_left: "left < right \<Longrightarrow> \<not> sps ! ((left + right) div 2) < k \<Longrightarrow>
  findClockwise_loop sps k left right = findClockwise_loop sps k left ((left + right) div 2)"
  by (subst findClockwise_loop.simps) (simp add: Let_def)

text \<open>
  The binary search on a sorted array: everything below the result is smaller
  than the key position, everything from the result on is not.
\<close>

lemma findClockwise_loop_spec:
  "sorted sps \<Longrightarrow> left \<le> right \<Longrightarrow> right \<le> length sps \<Longrightarrow>
   (\<forall>j<left. sps ! j < k) \<Longrightarrow> (\<forall>j. right \<le> j \<and> j < length sps \<longrightarrow> k \<le> sps ! j) \<Longrightarrow>
   left \<le> findClockwise_loop sps k left right \<and> findClockwise_loop sps k left right \<le> right \<and>
   (\<forall>j<findClockwise_loop sps k left right. sps ! j < k) \<and>
   (\<forall>j. findClockwise_loop sps k left right \<le> j \<and> j < length sps \<longrightarrow> k \<le> sps ! j)"
proof (induction sps k left right rule: findClockwise_loop.induct)
  case (1 sps k left right)
  show ?case
  proof (cases "left < right")
    case False
    with "1.prems" show ?thesis by (simp add: findClockwise_loop_stop)
  next
    case True
    define mid where "mid = (left + right) div 2"
    have mid: "left \<le> mid" "mid < right" using True by (auto simp: mid_def)
    show ?thesis
    proof (cases "sps ! mid < k")
      case lt: True
      have low: "\<forall>j<mid + 1. sps ! j < k"
      proof (intro allI impI)
        fix j assume "j < mid + 1"
        then have "j \<le> mid" by simp
        with \<open>sorted sps\<close> mid "1.prems"(3) have "sps ! j \<le> sps ! mid"
          by (simp add: sorted_nth_mono)
        with lt show "sps ! j < k" by simp
      qed
      have le: "mid + 1 \<le> right" using mid by simp
      have eq: "findClockwise_loop sps k left right = findClockwise_loop sps k (mid + 1) right"
        using True lt unfolding mid_def by (rule findClockwise_loop_right)
      have IH: "mid + 1 \<le> findClockwise_loop sps k (mid + 1) right \<and>
           findClockwise_loop sps k (mid + 1) right \<le> right \<and>
           (\<forall>j<findClockwise_loop sps k (mid + 1) right. sps ! j < k) \<and>
           (\<forall>j. findClockwise_loop sps k (mid + 1) right \<le> j \<and> j < length sps \<longrightarrow> k \<le> sps ! j)"
        by (rule "1.IH"(1)[OF True mid_def lt "1.prems"(1) le "1.prems"(3) low "1.prems"(5)])
      show ?thesis unfolding eq using IH mid by auto
    next
      case ge: False
      have high: "\<forall>j. mid \<le> j \<and> j < length sps \<longrightarrow> k \<le> sps ! j"
      proof (intro allI impI)
        fix j assume "mid \<le> j \<and> j < length sps"
        with \<open>sorted sps\<close> have "sps ! mid \<le> sps ! j"
          by (simp add: sorted_nth_mono)
        with ge show "k \<le> sps ! j" by simp
      qed
      have le: "mid \<le> length sps" using mid "1.prems"(3) by simp
      have eq: "findClockwise_loop sps k left right = findClockwise_loop sps k left mid"
        using True ge unfolding mid_def by (rule findClockwise_loop_left)
      have IH: "left \<le> findClockwise_loop sps k left mid \<and>
           findClockwise_loop sps k left mid \<le> mid \<and>
           (\<forall>j<findClockwise_loop sps k left mid. sps ! j < k) \<and>
           (\<forall>j. findClockwise_loop sps k left mid \<le> j \<and> j < length sps \<longrightarrow> k \<le> sps ! j)"
        by (rule "1.IH"(2)[OF True mid_def ge "1.prems"(1) mid(1) le "1.prems"(4) high])
      show ?thesis unfolding eq using IH mid by auto
    qed
  qed
qed


lemma findClockwiseIndex_wrap:
  assumes "sorted (sortedPositions r)" "\<forall>p\<in>set (sortedPositions r). p < k"
  shows "findClockwiseIndex r k = 0"
proof -
  let ?sps = "sortedPositions r"
  let ?res = "findClockwise_loop ?sps k 0 (length ?sps)"
  have spec: "\<forall>j. ?res \<le> j \<and> j < length ?sps \<longrightarrow> k \<le> ?sps ! j"
    using findClockwise_loop_spec[OF assms(1), of 0 "length ?sps" k] by simp
  have "\<not> ?res < length ?sps"
  proof
    assume lt: "?res < length ?sps"
    with spec have "k \<le> ?sps ! ?res" by simp
    moreover have "?sps ! ?res < k" using assms(2) lt by simp
    ultimately show False by simp
  qed
  then show ?thesis by (simp add: findClockwiseIndex_def Let_def)
qed


lemma remdups_append_filter:
  "remdups (as @ bs) = remdups [a\<leftarrow>as. a \<notin> set bs] @ remdups bs"
  by (induction as) auto

lemma first_occurrences_snoc:
  "first_occurrences (xs @ [x]) = (if x \<in> set xs then first_occurrences xs else first_occurrences xs @ [x])"
  by (simp add: first_occurrences_def)

lemma set_first_occurrences [simp]: "set (first_occurrences xs) = set xs"
  by (simp add: first_occurrences_def)

lemma distinct_first_occurrences [simp]: "distinct (first_occurrences xs)"
  by (simp add: first_occurrences_def)

lemma first_occurrences_append:
  "first_occurrences (xs @ zs) = first_occurrences xs @ first_occurrences [z\<leftarrow>zs. z \<notin> set xs]"
  by (simp add: first_occurrences_def remdups_append_filter rev_filter)

lemma first_occurrences_Cons:
  "first_occurrences (x # zs) = x # first_occurrences [z\<leftarrow>zs. z \<noteq> x]"
  using first_occurrences_append[of "[x]" zs] by (simp add: first_occurrences_def)


lemma getNodes_loop_stop:
  "\<not> (i < n \<and> int (length acc) < R) \<Longrightarrow> getNodes_loop r s n R i acc seen = acc"
  by (subst getNodes_loop.simps) auto

lemma getNodes_loop_new:
  "i < n \<Longrightarrow> int (length acc) < R \<Longrightarrow> ring r (sortedPositions r ! ((s + i) mod n)) \<notin> seen \<Longrightarrow>
   getNodes_loop r s n R i acc seen =
     getNodes_loop r s n R (i + 1) (acc @ [ring r (sortedPositions r ! ((s + i) mod n))])
       (insert (ring r (sortedPositions r ! ((s + i) mod n))) seen)"
  by (subst getNodes_loop.simps) (simp add: Let_def)

lemma getNodes_loop_seen:
  "i < n \<Longrightarrow> int (length acc) < R \<Longrightarrow> ring r (sortedPositions r ! ((s + i) mod n)) \<in> seen \<Longrightarrow>
   getNodes_loop r s n R i acc seen = getNodes_loop r s n R (i + 1) acc seen"
  by (subst getNodes_loop.simps) (simp add: Let_def)

lemma clockwise_owners_nth:
  "i < length (sortedPositions r) \<Longrightarrow>
   clockwise_owners r s ! i = ring r (sortedPositions r ! ((s + i) mod length (sortedPositions r)))"
  by (simp add: clockwise_owners_def nth_rotate)

lemma length_clockwise_owners [simp]: "length (clockwise_owners r s) = length (sortedPositions r)"
  by (simp add: clockwise_owners_def)

text \<open>
  The walk returns the first \<open>replicationFactor\<close> distinct owners met clockwise
  from the start index.
\<close>

lemma getNodes_loop_spec:
  "n = length (sortedPositions r) \<Longrightarrow> i \<le> n \<Longrightarrow> seen = set acc \<Longrightarrow>
   acc = take (nat R) (first_occurrences (take i (clockwise_owners r s))) \<Longrightarrow>
   getNodes_loop r s n R i acc seen = take (nat R) (first_occurrences (clockwise_owners r s))"
proof (induction r s n R i acc seen rule: getNodes_loop.induct)
  case (1 r s n R i acc seen)
  let ?clock = "clockwise_owners r s"
  let ?A = "first_occurrences (take i ?clock)"
  obtain ys where ys: "first_occurrences ?clock = ?A @ ys"
    using first_occurrences_append[of "take i ?clock" "drop i ?clock"] by simp
  show ?case
  proof (cases "i < n \<and> int (length acc) < R")
    case False
    then have stop: "getNodes_loop r s n R i acc seen = acc" by (rule getNodes_loop_stop)
    show ?thesis
    proof (cases "i < n")
      case False
      with "1.prems" have "take i ?clock = ?clock" by simp
      with "1.prems" stop show ?thesis by simp
    next
      case True
      with False have full: "\<not> int (length acc) < R" by simp
      have "length acc \<le> nat R" using "1.prems"(4) by simp
      with full have "nat R \<le> length ?A" using "1.prems"(4) by (simp split: if_splits)
      then have "take (nat R) (?A @ ys) = take (nat R) ?A" by simp
      with ys "1.prems"(4) stop show ?thesis by simp
    qed
  next
    case True
    then have i: "i < n" and len: "int (length acc) < R" by simp_all
    let ?x = "ring r (sortedPositions r ! ((s + i) mod n))"
    have x: "?clock ! i = ?x" using i "1.prems"(1) by (simp add: clockwise_owners_nth)
    have lacc: "length acc < nat R" using len by simp
    then have "length (take (nat R) ?A) < nat R" using "1.prems"(4) by simp
    then have "length ?A < nat R" by simp
    then have accA: "acc = ?A" using "1.prems"(4) by simp
    have tk: "take (Suc i) ?clock = take i ?clock @ [?x]"
      using i "1.prems"(1) x by (simp add: take_Suc_conv_app_nth)
    have seenA: "seen = set (take i ?clock)" using "1.prems"(3) accA by simp
    show ?thesis
    proof (cases "?x \<in> seen")
      case False
      have step: "getNodes_loop r s n R i acc seen =
          getNodes_loop r s n R (i + 1) (acc @ [?x]) (insert ?x seen)"
        using i len False by (rule getNodes_loop_new)
      have "acc @ [?x] = take (nat R) (first_occurrences (take (i + 1) ?clock))"
        using False seenA accA lacc by (simp add: tk first_occurrences_snoc)
      moreover have "insert ?x seen = set (acc @ [?x])" using "1.prems"(3) by simp
      moreover have "i + 1 \<le> n" using i by simp
      ultimately show ?thesis
        using "1.IH"(1)[OF True refl refl False "1.prems"(1)] step by simp
    next
      case seen: True
      have step: "getNodes_loop r s n R i acc seen = getNodes_loop r s n R (i + 1) acc seen"
        using i len seen by (rule getNodes_loop_seen)
      have "acc = take (nat R) (first_occurrences (take (i + 1) ?clock))"
        using seen seenA accA lacc "1.prems"(4) by (simp add: tk first_occurrences_snoc)
      moreover have "i + 1 \<le> n" using i by simp
      ultimately show ?thesis
        using "1.IH"(2)[OF True refl refl _ "1.prems"(1)] seen "1.prems"(3) step by simp
    qed
  qed
qed

lemma getNodesForKey_walk:
  assumes "nodes r \<noteq> []"
  shows "getNodesForKey H r (JString key) R =
     Inr \<lparr>primary = (case take (nat R) (first_occurrences (clockwise_owners r (findClockwiseIndex r (hash H key)))) of
                       [] \<Rightarrow> None | p # rest \<Rightarrow> p),
          replicas = (case take (nat R) (first_occurrences (clockwise_owners r (findClockwiseIndex r (hash H key)))) of
                       [] \<Rightarrow> [] | p # rest \<Rightarrow> rest),
          keyHash = hash H key\<rparr>"
proof -
  have "getNodes_loop r (findClockwiseIndex r (hash H key)) (length (sortedPositions r)) R 0 [] {} =
      take (nat R) (first_occurrences (clockwise_owners r (findClockwiseIndex r (hash H key))))"
    by (rule getNodes_loop_spec) (simp_all add: first_occurrences_def)
  with assms show ?thesis by (simp add: getNodesForKey_def Let_def)
qed

text \<open>Under the invariant, the owners on the ring are the registered brokers.\<close>

lemma ring_inv_owners:
  assumes "ring_inv r" "0 < virtualNodeCount r"
  shows "set (clockwise_owners r s) = Some ` set (getAllNodeNames r)"
proof -
  from assms(1) have sp: "set (sortedPositions r) = dom (ring r)"
    and dn: "distinct (map fst (nodes r))"
    and own: "\<And>n d. map_of (nodes r) n = Some d \<Longrightarrow>
        set (virtualPositions d) = {p. ring r p = Some n} \<and> length (virtualPositions d) = virtualNodeCount r"
    and reg: "\<And>p n. ring r p = Some n \<Longrightarrow> n \<in> fst ` set (nodes r)"
    by (auto simp: ring_inv_def)
  have "set (clockwise_owners r s) = ring r ` dom (ring r)"
    by (simp add: clockwise_owners_def sp)
  also have "\<dots> = Some ` set (getAllNodeNames r)"
  proof (intro set_eqI iffI)
    fix x assume "x \<in> ring r ` dom (ring r)"
    then obtain p n where "ring r p = Some n" "x = Some n" by auto
    with reg show "x \<in> Some ` set (getAllNodeNames r)" by (auto simp: getAllNodeNames_def)
  next
    fix x assume "x \<in> Some ` set (getAllNodeNames r)"
    then obtain n d where n: "x = Some n" "(n, d) \<in> set (nodes r)"
      by (auto simp: getAllNodeNames_def)
    with dn have "map_of (nodes r) n = Some d" by simp
    from own[OF this] assms(2) have "{p. ring r p = Some n} \<noteq> {}"
      by (metis length_greater_0_conv set_empty)
    then obtain p where "ring r p = Some n" by auto
    with n show "x \<in> ring r ` dom (ring r)" by (auto simp: dom_def intro!: image_eqI[where x=p])
  qed
  finally show ?thesis .
qed

lemma ring_inv_positions_nonempty:
  assumes "ring_inv r" "0 < virtualNodeCount r" "nodes r \<noteq> []"
  shows "sortedPositions r \<noteq> []"
proof
  assume "sortedPositions r = []"
  then have "set (clockwise_owners r 0) = {}" by (simp add: clockwise_owners_def)
  with ring_inv_owners[OF assms(1,2), of 0] assms(3) show False
    by (simp add: getAllNodeNames_def)
qed

lemma demo_ring_built:
  "addNode sha256_prefix (new_HashRing 2) ''node-a'' ''http://node-a:5000'' = Some demo_ring_a"
  "addNode sha256_prefix demo_ring_a ''node-b'' ''http://node-b:5000'' = Some demo_ring_ab"
  "addNode sha256_prefix demo_ring_ab ''node-c'' ''http://node-c:5000'' = Some demo_ring"
  by (simp_all add: ring_eval demo_ring_a_def demo_ring_ab_def demo_ring_def)

lemma demo_ring_registered_once: "ring_registered_once sha256_prefix demo_ring"
proof -
  have "ring_registered_once sha256_prefix demo_ring_a"
    by (rule once_add[OF once_new _ demo_ring_built(1)])
       (simp add: getAllNodeNames_def new_HashRing_def)
  then have "ring_registered_once sha256_prefix demo_ring_ab"
    by (rule once_add[OF _ _ demo_ring_built(2)])
       (simp add: getAllNodeNames_def demo_ring_a_def)
  then show ?thesis
    by (rule once_add[OF _ _ demo_ring_built(3)])
       (simp add: getAllNodeNames_def demo_ring_ab_def)
qed

lemma demo_ring_reachable: "ring_reachable sha256_prefix demo_ring"
  using demo_ring_registered_once by (rule ring_registered_once_reachable)





lemma demo_order_3:
  "getNodesForKey sha256_prefix demo_ring (JString ''order_3'') 3 =
     Inr \<lparr>primary = Some ''node-a'', replicas = [Some ''node-c'', Some ''node-b''],
          keyHash = 3167183801\<rparr>"
  by (simp add: ring_eval demo_ring_def)


text \<open>
  C7. On every ring the class can build, with at least one virtual node per
  broker and some broker registered: when \<open>hash(key)\<close> is greater than every
  position on the ring, the start index is 0: the primary is the owner of the
  smallest position and the walk reads the positions in ascending order from
  there.
\<close>

theorem getNodesForKey_wraps:
  assumes "ring_reachable H r" "0 < virtualNodeCount r" "nodes r \<noteq> []" "1 \<le> R"
    and "\<forall>p\<in>set (sortedPositions r). p < hash H key"
  shows "findClockwiseIndex r (hash H key) = 0 \<and>
     sortedPositions r ! 0 = Min (set (sortedPositions r)) \<and>
     (\<exists>kn. getNodesForKey H r (JString key) R = Inr kn \<and>
        primary kn = ring r (sortedPositions r ! 0) \<and>
        primary kn # replicas kn =
          take (nat R) (first_occurrences (map (ring r) (sortedPositions r))))"
proof -
  have inv: "ring_positions_inv r" using assms(1) by (rule ring_reachable_inv)
  have sorted: "sorted (sortedPositions r)" using inv by (simp add: ring_positions_inv_def)
  have ne: "sortedPositions r \<noteq> []" using inv assms(2,3) by (rule ring_positions_nonempty)
  have s0: "findClockwiseIndex r (hash H key) = 0"
    using sorted assms(5) by (rule findClockwiseIndex_wrap)
  obtain q qs where sps: "sortedPositions r = q # qs" using ne by (cases "sortedPositions r") auto
  have min: "sortedPositions r ! 0 = Min (set (sortedPositions r))"
    using sorted by (auto simp: sps intro!: Min_eqI[symmetric])
  have clock: "clockwise_owners r 0 = map (ring r) (sortedPositions r)"
    by (simp add: clockwise_owners_def)
  let ?A = "take (nat R) (first_occurrences (map (ring r) (sortedPositions r)))"
  obtain k where k: "nat R = Suc k" using assms(4) by (cases "nat R") auto
  have A: "?A = ring r q # take k (first_occurrences [z\<leftarrow>map (ring r) qs. z \<noteq> ring r q])"
    by (simp add: sps first_occurrences_Cons k)
  have res: "getNodesForKey H r (JString key) R =
      Inr \<lparr>primary = ring r q,
           replicas = take k (first_occurrences [z\<leftarrow>map (ring r) qs. z \<noteq> ring r q]),
           keyHash = hash H key\<rparr>"
    using getNodesForKey_walk[OF assms(3), of H key R] A by (simp add: s0 clock)
  show ?thesis using s0 min res A by (simp add: sps)
qed

theorem getNodesForKey_wraps_witness:
  "ring_reachable sha256_prefix demo_ring \<and> 0 < virtualNodeCount demo_ring \<and> nodes demo_ring \<noteq> [] \<and>
   (1::int) \<le> 3 \<and>
   last (sortedPositions demo_ring) < hash sha256_prefix ''user_signup_5'' \<and>
   findClockwiseIndex demo_ring (hash sha256_prefix ''user_signup_5'') = 0 \<and>
   (\<exists>kn. getNodesForKey sha256_prefix demo_ring (JString ''user_signup_5'') 3 = Inr kn \<and>
      primary kn = ring demo_ring (sortedPositions demo_ring ! 0)) \<and>
   getNodesForKey sha256_prefix demo_ring (JString ''user_signup_5'') 3 =
     Inr \<lparr>primary = Some ''node-a'', replicas = [Some ''node-c'', Some ''node-b''],
          keyHash = 3918100705\<rparr>"
proof -
  have h: "0 < virtualNodeCount demo_ring" "nodes demo_ring \<noteq> []" "(1::int) \<le> 3"
    by (simp_all add: demo_ring_def)
  have gt: "\<forall>p\<in>set (sortedPositions demo_ring). p < hash sha256_prefix ''user_signup_5''"
    by (simp add: demo_ring_def hash_def sha256_prefix_def hashSpace_num)
  have ev: "getNodesForKey sha256_prefix demo_ring (JString ''user_signup_5'') 3 =
     Inr \<lparr>primary = Some ''node-a'', replicas = [Some ''node-c'', Some ''node-b''],
          keyHash = 3918100705\<rparr>"
    by (simp add: ring_eval demo_ring_def)
  have mx: "last (sortedPositions demo_ring) < hash sha256_prefix ''user_signup_5''"
    by (simp add: demo_ring_def hash_def sha256_prefix_def hashSpace_num)
  note w = getNodesForKey_wraps[OF demo_ring_reachable h gt]
  from w have s0: "findClockwiseIndex demo_ring (hash sha256_prefix ''user_signup_5'') = 0"
    by (rule conjunct1)
  from w have own: "\<exists>kn. getNodesForKey sha256_prefix demo_ring (JString ''user_signup_5'') 3 = Inr kn \<and>
      primary kn = ring demo_ring (sortedPositions demo_ring ! 0)"
    by blast
  show ?thesis
    by (intro conjI demo_ring_reachable h mx s0 own ev)
qed

section \<open>Removing and re-adding a broker\<close>

lemma probe_mono:
  "probe rg p fuel = Some q \<Longrightarrow> dom rg \<subseteq> dom rg' \<Longrightarrow> q \<notin> dom rg' \<Longrightarrow> probe rg' p fuel = Some q"
proof (induction fuel arbitrary: p)
  case 0
  then show ?case by simp
next
  case (Suc fuel)
  show ?case
  proof (cases "rg p")
    case None
    with Suc.prems show ?thesis by (auto simp: dom_def)
  next
    case (Some a)
    with Suc.prems(1) have rec: "probe rg ((p + 1) mod hashSpace) fuel = Some q" by simp
    from Some Suc.prems(2) have "rg' p \<noteq> None" by (auto simp: dom_def)
    with Suc.IH[OF rec Suc.prems(2,3)] show ?thesis by simp
  qed
qed

text \<open>
  The loop of \<open>addNode\<close> finds the same positions on a ring that has more
  positions taken, as long as the positions found are free there too.
\<close>

lemma addNode_loop_mono:
  "addNode_loop H n is (rg, vps, sps) = Some (rg1, vps @ new, sps1) \<Longrightarrow>
   dom rg \<subseteq> dom rg' \<Longrightarrow> set new \<inter> dom rg' = {} \<Longrightarrow>
   \<exists>rg1' sps1'. addNode_loop H n is (rg', vps', sps') = Some (rg1', vps' @ new, sps1')"
proof (induction "is" arbitrary: rg vps sps rg' vps' sps' new)
  case Nil
  then show ?case by simp
next
  case (Cons i "is")
  from Cons.prems(1) obtain q where q: "probe rg (hash H (vnode_label n i)) hashSpace = Some q"
    and rest: "addNode_loop H n is (rg(q \<mapsto> n), vps @ [q], sps @ [q]) = Some (rg1, vps @ new, sps1)"
    by (auto split: option.splits)
  from addNode_loop_spec[OF rest] obtain new' where new':
    "vps @ new = (vps @ [q]) @ new'" "distinct new'" "set new' \<inter> dom (rg(q \<mapsto> n)) = {}"
    by blast
  then have new: "new = q # new'" by simp
  have qn: "q \<notin> set new'" using new'(3) by auto
  have qfree: "q \<notin> dom rg'" using Cons.prems(3) new by auto
  have pq: "probe rg' (hash H (vnode_label n i)) hashSpace = Some q"
    using q Cons.prems(2) qfree by (rule probe_mono)
  have rest': "addNode_loop H n is (rg(q \<mapsto> n), vps @ [q], sps @ [q]) = Some (rg1, (vps @ [q]) @ new', sps1)"
    using rest new by simp
  have sub: "dom (rg(q \<mapsto> n)) \<subseteq> dom (rg'(q \<mapsto> n))" using Cons.prems(2) by auto
  have disj: "set new' \<inter> dom (rg'(q \<mapsto> n)) = {}" using Cons.prems(3) new qn by auto
  from Cons.IH[OF rest' sub disj, of "vps' @ [q]" "sps' @ [q]"]
  obtain rg1' sps1' where
    "addNode_loop H n is (rg'(q \<mapsto> n), vps' @ [q], sps' @ [q]) = Some (rg1', (vps' @ [q]) @ new', sps1')"
    by blast
  with pq new show ?case by simp
qed

lemma removeNode_loop_ring:
  "fst (removeNode_loop ps (rg, sps)) = (\<lambda>p. if p \<in> set ps then None else rg p)"
  by (induction ps arbitrary: rg sps) (auto simp: fun_eq_iff)

lemma addNode_facts:
  assumes "addNode H r n u = Some r'"
  obtains new sps' where
    "addNode_loop H n [0..<virtualNodeCount r] (ring r, [], sortedPositions r) = Some (ring r', [] @ new, sps')"
    "map_of (nodes r') n = Some \<lparr>url = u, virtualPositions = new\<rparr>"
    "\<And>m. m \<noteq> n \<Longrightarrow> map_of (nodes r') m = map_of (nodes r) m"
    "virtualNodeCount r' = virtualNodeCount r"
    "dom (ring r) \<subseteq> dom (ring r')" "set new \<inter> dom (ring r) = {}"
proof -
  from assms obtain rg' vps' sps' where
    loop: "addNode_loop H n [0..<virtualNodeCount r] (ring r, [], sortedPositions r) = Some (rg', vps', sps')"
    and r': "r' = r\<lparr>ring := rg', sortedPositions := sort sps',
                  nodes := AList.update n \<lparr>url = u, virtualPositions = vps'\<rparr> (nodes r)\<rparr>"
    by (auto simp: addNode_def split: option.splits)
  from addNode_loop_spec[OF loop] obtain new where new:
    "vps' = new" "set new \<inter> dom (ring r) = {}"
    "rg' = (\<lambda>p. if p \<in> set new then Some n else ring r p)"
    by auto
  show thesis
  proof (rule that[of new sps'])
    show "addNode_loop H n [0..<virtualNodeCount r] (ring r, [], sortedPositions r) = Some (ring r', [] @ new, sps')"
      using loop new(1) by (simp add: r')
    show "map_of (nodes r') n = Some \<lparr>url = u, virtualPositions = new\<rparr>"
      by (simp add: r' update_conv' new(1))
    show "\<And>m. m \<noteq> n \<Longrightarrow> map_of (nodes r') m = map_of (nodes r) m"
      by (simp add: r' update_conv')
    show "virtualNodeCount r' = virtualNodeCount r" by (simp add: r')
    show "dom (ring r) \<subseteq> dom (ring r')" by (auto simp: r' new(3))
    show "set new \<inter> dom (ring r) = {}" by (rule new(2))
  qed
qed

lemma addNodes_facts:
  "addNodes H r others = Some r' \<Longrightarrow> n \<notin> fst ` set others \<Longrightarrow>
   map_of (nodes r') n = map_of (nodes r) n \<and> virtualNodeCount r' = virtualNodeCount r \<and>
   dom (ring r) \<subseteq> dom (ring r')"
proof (induction others arbitrary: r)
  case Nil
  then show ?case by simp
next
  case (Cons e others)
  obtain m u where e: "e = (m, u)" by (cases e)
  from Cons.prems e obtain r1 where r1: "addNode H r m u = Some r1"
    and rest: "addNodes H r1 others = Some r'"
    by (auto split: option.splits)
  from Cons.prems(2) e have ne: "n \<noteq> m" and nin: "n \<notin> fst ` set others" by auto
  from r1 have "map_of (nodes r1) n = map_of (nodes r) n" "virtualNodeCount r1 = virtualNodeCount r"
    "dom (ring r) \<subseteq> dom (ring r1)"
    using ne by (auto elim!: addNode_facts)
  with Cons.IH[OF rest nin] show ?case by auto
qed

text \<open>
  C9, as amended. Let a broker be added to any ring, and let only additions of
  other brokers follow. Then \<open>removeNode\<close> of the broker followed by \<open>addNode\<close>
  with the same name returns, and the broker has the same list of positions as
  before the removal, whatever collisions were resolved by probing on the way.
\<close>

theorem readd_same_positions:
  assumes "addNode H r0 nodeName u = Some r1"
    and "addNodes H r1 others = Some r2"
    and "nodeName \<notin> fst ` set others"
  shows "\<exists>r3 d. addNode H (removeNode r2 nodeName) nodeName u' = Some r3 \<and>
           map_of (nodes r2) nodeName = Some d \<and>
           map_option virtualPositions (map_of (nodes r3) nodeName) = Some (virtualPositions d)"
proof -
  from assms(1) obtain new sps' where
    loop: "addNode_loop H nodeName [0..<virtualNodeCount r0] (ring r0, [], sortedPositions r0)
             = Some (ring r1, [] @ new, sps')"
    and d1: "map_of (nodes r1) nodeName = Some \<lparr>url = u, virtualPositions = new\<rparr>"
    and v1: "virtualNodeCount r1 = virtualNodeCount r0"
    and sub1: "dom (ring r0) \<subseteq> dom (ring r1)" and free: "set new \<inter> dom (ring r0) = {}"
    by (rule addNode_facts)
  from addNodes_facts[OF assms(2,3)] d1 v1 sub1 have
    d2: "map_of (nodes r2) nodeName = Some \<lparr>url = u, virtualPositions = new\<rparr>"
    and v2: "virtualNodeCount r2 = virtualNodeCount r0"
    and sub2: "dom (ring r0) \<subseteq> dom (ring r2)"
    by auto
  let ?rm = "removeNode r2 nodeName"
  obtain rgm spsm where rm_loop: "removeNode_loop new (ring r2, sortedPositions r2) = (rgm, spsm)"
    by (cases "removeNode_loop new (ring r2, sortedPositions r2)")
  with removeNode_loop_ring[of new "ring r2" "sortedPositions r2"]
  have "rgm = (\<lambda>p. if p \<in> set new then None else ring r2 p)" by simp
  then have rm_ring: "ring ?rm = (\<lambda>p. if p \<in> set new then None else ring r2 p)"
    using d2 rm_loop by (simp add: removeNode_def)
  have rm_v: "virtualNodeCount ?rm = virtualNodeCount r0"
    using d2 v2 by (simp add: removeNode_def split: prod.splits)
  have sub: "dom (ring r0) \<subseteq> dom (ring ?rm)"
  proof
    fix x assume x: "x \<in> dom (ring r0)"
    with free have "x \<notin> set new" by blast
    moreover from x sub2 have "x \<in> dom (ring r2)" by blast
    ultimately show "x \<in> dom (ring ?rm)" by (simp add: rm_ring dom_def)
  qed
  have disj: "set new \<inter> dom (ring ?rm) = {}" by (auto simp: rm_ring)
  from addNode_loop_mono[OF loop sub disj, of "[]" "sortedPositions ?rm"]
  obtain rg3 sps3 where
    "addNode_loop H nodeName [0..<virtualNodeCount ?rm] (ring ?rm, [], sortedPositions ?rm)
       = Some (rg3, new, sps3)"
    by (auto simp: rm_v)
  then have "\<exists>r3. addNode H ?rm nodeName u' = Some r3 \<and>
      map_option virtualPositions (map_of (nodes r3) nodeName) = Some new"
    by (simp add: addNode_def update_conv')
  with d2 show ?thesis by auto
qed

lemma upt_1: "[0..<1] = [0]"
  by simp

lemma collision_ring_built:
  "addNode sha256_prefix (new_HashRing 1) ''node-12574'' ''http://node-12574:5000''
     = Some \<lparr>virtualNodeCount = 1, ring = [158148131 \<mapsto> ''node-12574''],
             sortedPositions = [158148131],
             nodes = [(''node-12574'', \<lparr>url = ''http://node-12574:5000'', virtualPositions = [158148131]\<rparr>)]\<rparr>"
  "addNode sha256_prefix
     \<lparr>virtualNodeCount = 1, ring = [158148131 \<mapsto> ''node-12574''],
      sortedPositions = [158148131],
      nodes = [(''node-12574'', \<lparr>url = ''http://node-12574:5000'', virtualPositions = [158148131]\<rparr>)]\<rparr>
     ''node-29843'' ''http://node-29843:5000'' = Some collision_ring_both"
  "removeNode collision_ring_both ''node-12574'' = collision_ring"
  by (simp_all add: ring_eval upt_1 collision_ring_both_def collision_ring_def fun_eq_iff)

lemma collision_ring_registered_once: "ring_registered_once sha256_prefix collision_ring"
proof -
  have "ring_registered_once sha256_prefix
     \<lparr>virtualNodeCount = 1, ring = [158148131 \<mapsto> ''node-12574''],
      sortedPositions = [158148131],
      nodes = [(''node-12574'', \<lparr>url = ''http://node-12574:5000'', virtualPositions = [158148131]\<rparr>)]\<rparr>"
    by (rule once_add[OF once_new _ collision_ring_built(1)])
       (simp add: getAllNodeNames_def new_HashRing_def)
  then have "ring_registered_once sha256_prefix collision_ring_both"
    by (rule once_add[OF _ _ collision_ring_built(2)]) (simp add: getAllNodeNames_def)
  then have "ring_registered_once sha256_prefix (removeNode collision_ring_both ''node-12574'')"
    by (rule once_remove)
  then show ?thesis by (simp only: collision_ring_built(3))
qed

lemma collision_ring_reachable: "ring_reachable sha256_prefix collision_ring"
  using collision_ring_registered_once by (rule ring_registered_once_reachable)

text \<open>
  C9 as stated fails: on the ring \<open>collision_ring\<close>, on which no name was added
  while registered, node-29843 has the position
  158148132, and after \<open>removeNode\<close> and \<open>addNode\<close> of node-29843 it has the
  position 158148131, the hash of its label, which the removal of node-12574 had
  left free.
\<close>

theorem readd_positions_counterexample:
  "ring_reachable sha256_prefix collision_ring \<and>
   ring_registered_once sha256_prefix collision_ring \<and>
   map_of (nodes collision_ring) ''node-29843''
     = Some \<lparr>url = ''http://node-29843:5000'', virtualPositions = [158148132]\<rparr> \<and>
   addNode sha256_prefix (removeNode collision_ring ''node-29843'') ''node-29843''
        ''http://node-29843:5000'' = Some collision_ring_readded \<and>
   map_of (nodes collision_ring_readded) ''node-29843''
     = Some \<lparr>url = ''http://node-29843:5000'', virtualPositions = [158148131]\<rparr>"
proof -
  have "map_of (nodes collision_ring) ''node-29843''
     = Some \<lparr>url = ''http://node-29843:5000'', virtualPositions = [158148132]\<rparr>"
    by (simp add: collision_ring_def)
  moreover have "addNode sha256_prefix (removeNode collision_ring ''node-29843'') ''node-29843''
        ''http://node-29843:5000'' = Some collision_ring_readded"
    by (simp add: ring_eval upt_1 collision_ring_def collision_ring_readded_def)
  moreover have "map_of (nodes collision_ring_readded) ''node-29843''
     = Some \<lparr>url = ''http://node-29843:5000'', virtualPositions = [158148131]\<rparr>"
    by (simp add: collision_ring_readded_def)
  ultimately show ?thesis
    using collision_ring_reachable collision_ring_registered_once by simp
qed

theorem readd_same_positions_witness:
  "addNode sha256_prefix demo_ring_a ''node-b'' ''http://node-b:5000'' = Some demo_ring_ab \<and>
   addNodes sha256_prefix demo_ring_ab [(''node-c'', ''http://node-c:5000'')] = Some demo_ring \<and>
   ''node-b'' \<notin> fst ` set [(''node-c'', ''http://node-c:5000'')] \<and>
   (\<exists>r3 d. addNode sha256_prefix (removeNode demo_ring ''node-b'') ''node-b'' ''http://node-b:5000'' = Some r3 \<and>
      map_of (nodes demo_ring) ''node-b'' = Some d \<and>
      map_option virtualPositions (map_of (nodes r3) ''node-b'') = Some (virtualPositions d))"
proof -
  have a: "addNodes sha256_prefix demo_ring_ab [(''node-c'', ''http://node-c:5000'')] = Some demo_ring"
    by (simp add: demo_ring_built(3))
  have n: "''node-b'' \<notin> fst ` set [(''node-c'', ''http://node-c:5000'')]" by simp
  from readd_same_positions[OF demo_ring_built(2) a n, of "''http://node-b:5000''"]
  show ?thesis by (intro conjI demo_ring_built(2) a n)
qed

section \<open>Properties of the health monitor\<close>

lemma health_run_snoc: "health_run T h (evs @ [e]) = health_step T (health_run T h evs) e"
  by (simp add: health_run_def)

lemma health_run_Cons: "health_run T h (e # evs) = health_run T (health_step T h e) evs"
  by (simp add: health_run_def)

lemma consecutive_failures_snoc:
  "consecutive_failures (evs @ [e]) =
     (if e = Probe True then 0 else if e = Probe False then consecutive_failures evs + 1
      else consecutive_failures evs)"
  by (induction evs) auto

text \<open>\<open>failCount\<close> counts the probe failures since the last successful probe.\<close>

lemma failCount_health_run:
  "failCount (health_run T h evs) =
     (if Probe True \<in> set evs then consecutive_failures evs else failCount h + consecutive_failures evs)"
proof (induction evs rule: rev_induct)
  case Nil
  show ?case by (simp add: health_run_def)
next
  case (snoc e evs)
  show ?case
  proof (cases e)
    case (Probe ok)
    with snoc show ?thesis
      by (cases ok) (auto simp: health_run_snoc consecutive_failures_snoc check_health_def probe_settled_def Let_def)
  next
    case MarkFailedOver
    with snoc show ?thesis
      by (auto simp: health_run_snoc consecutive_failures_snoc)
  qed
qed

text \<open>
  C4. Let a health record be in the state reached from the initial record by any
  list of events, and let one more probe be made. The record goes from HEALTHY to
  FAILED exactly when the probe fails and the consecutive failures, this one
  included, number at least the threshold; that is also exactly when \<open>onFailure\<close>
  is fired. From FAILED or FAILED_OVER one successful probe leads to RECOVERED
  with \<open>failCount\<close> 0 and fires \<open>onRecovery\<close>.
\<close>

theorem health_transitions:
  "((status (health_run T initial_health evs) = HEALTHY \<and>
     status (health_run T initial_health (evs @ [Probe ok])) = FAILED)
    \<longleftrightarrow> (status (health_run T initial_health evs) = HEALTHY \<and> \<not> ok \<and>
         T \<le> consecutive_failures (evs @ [Probe ok]))) \<and>
   (snd (check_health T ok t (health_run T initial_health evs)) = Some OnFailure
    \<longleftrightarrow> (status (health_run T initial_health evs) = HEALTHY \<and> \<not> ok \<and>
         T \<le> consecutive_failures (evs @ [Probe ok]))) \<and>
   ((status (health_run T initial_health evs) = FAILED \<or>
     status (health_run T initial_health evs) = FAILED_OVER) \<and> ok \<longrightarrow>
      status (health_run T initial_health (evs @ [Probe ok])) = RECOVERED \<and>
      failCount (health_run T initial_health (evs @ [Probe ok])) = 0 \<and>
      snd (check_health T ok t (health_run T initial_health evs)) = Some OnRecovery)"
proof -
  have fc: "failCount (health_run T initial_health evs) = consecutive_failures evs"
    by (simp add: failCount_health_run initial_health_def)
  show ?thesis
    by (cases ok) (auto simp: health_run_snoc consecutive_failures_snoc check_health_def probe_settled_def Let_def fc)
qed

theorem health_transitions_witness:
  "status (health_run 3 initial_health [Probe False, Probe False]) = HEALTHY \<and>
   status (health_run 3 initial_health [Probe False, Probe False, Probe False]) = FAILED \<and>
   consecutive_failures [Probe False, Probe False, Probe False] = 3 \<and>
   status (health_run 3 initial_health [Probe False, Probe False, Probe False, MarkFailedOver])
     = FAILED_OVER \<and>
   status (health_run 3 initial_health [Probe False, Probe False, Probe False, MarkFailedOver, Probe True])
     = RECOVERED \<and>
   failCount (health_run 3 initial_health [Probe False, Probe False, Probe False, MarkFailedOver, Probe True])
     = 0"
  using health_transitions [of 3 "[Probe False, Probe False]" False "[]"]
        health_transitions [of 3 "[Probe False, Probe False, Probe False, MarkFailedOver]" True "[]"]
  by (simp add: health_run_def check_health_def probe_settled_def initial_health_def Let_def)

lemma recovered_step:
  "status h \<in> {RECOVERED, FAILED_OVER} \<Longrightarrow> e \<noteq> Probe True \<Longrightarrow>
   status (health_step T h e) \<in> {RECOVERED, FAILED_OVER} \<and>
   (e \<noteq> MarkFailedOver \<longrightarrow> status (health_step T h e) = status h \<and>
      failCount (health_step T h e) = failCount h + 1)"
  by (cases e) (auto simp: check_health_def probe_settled_def Let_def)

lemma recovered_no_callback:
  "status h \<in> {RECOVERED, FAILED_OVER} \<Longrightarrow> snd (check_health T False t h) = None"
  by (auto simp: check_health_def probe_settled_def Let_def)

lemma recovered_run:
  "status h \<in> {RECOVERED, FAILED_OVER} \<Longrightarrow> Probe True \<notin> set evs \<Longrightarrow>
   status (health_run T h evs) \<in> {RECOVERED, FAILED_OVER} \<and>
   OnFailure \<notin> set (health_callbacks T h evs) \<and>
   (MarkFailedOver \<notin> set evs \<longrightarrow> status (health_run T h evs) = status h \<and>
      failCount (health_run T h evs) = failCount h + length evs)"
proof (induction evs arbitrary: h)
  case Nil
  then show ?case by (simp add: health_run_def)
next
  case (Cons e evs)
  from Cons.prems have e: "e \<noteq> Probe True" and evs: "Probe True \<notin> set evs" by auto
  note st = recovered_step[OF Cons.prems(1) e, of T]
  from st have st1: "status (health_step T h e) \<in> {RECOVERED, FAILED_OVER}" by blast
  note IH = Cons.IH[OF st1 evs]
  have cb: "OnFailure \<notin> set (health_callbacks T h (e # evs))"
  proof (cases e)
    case (Probe ok)
    with e have "ok = False" by simp
    with Probe IH recovered_no_callback[OF Cons.prems(1), of T "[]"] show ?thesis by simp
  next
    case MarkFailedOver
    with IH show ?thesis by simp
  qed
  show ?case unfolding health_run_Cons using IH st cb by auto
qed

lemma healthy_run_below_threshold:
  "status h = HEALTHY \<Longrightarrow> failCount h + k < T \<Longrightarrow>
   status (health_run T h (replicate k (Probe False))) = HEALTHY \<and>
   failCount (health_run T h (replicate k (Probe False))) = failCount h + k"
proof (induction k)
  case 0
  then show ?case by (simp add: health_run_def)
next
  case (Suc k)
  then have IH: "status (health_run T h (replicate k (Probe False))) = HEALTHY"
      "failCount (health_run T h (replicate k (Probe False))) = failCount h + k"
    by simp_all
  have "replicate (Suc k) (Probe False) = replicate k (Probe False) @ [Probe False]"
    by (simp add: replicate_append_same)
  then show ?case using IH Suc.prems(2)
    by (simp add: health_run_snoc check_health_def probe_settled_def Let_def del: replicate_Suc)
qed

lemma healthy_run_reaches_threshold:
  assumes "status h = HEALTHY" "failCount h = 0" "0 < T"
  shows "status (health_run T h (replicate T (Probe False))) = FAILED"
proof -
  obtain k where k: "T = Suc k" using assms(3) by (cases T) auto
  have below: "status (health_run T h (replicate k (Probe False))) = HEALTHY \<and>
      failCount (health_run T h (replicate k (Probe False))) = failCount h + k"
    using assms k by (intro healthy_run_below_threshold) simp_all
  have "replicate T (Probe False) = replicate k (Probe False) @ [Probe False]"
    by (simp add: k replicate_append_same)
  then show ?thesis using below assms(2) k
    by (simp add: health_run_snoc check_health_def probe_settled_def Let_def del: replicate_Suc)
qed

text \<open>
  C10. From a record whose status is RECOVERED, any number of consecutive failed
  probes leaves the status RECOVERED (only \<open>failCount\<close> grows) and never fires
  \<open>onFailure\<close>. One successful probe sets the status to HEALTHY with
  \<open>failCount\<close> 0, after which the threshold number of failures leads to FAILED
  again.
\<close>

theorem recovered_never_fails_again:
  "status h = RECOVERED \<Longrightarrow>
   status (health_run T h (replicate n (Probe False))) = RECOVERED \<and>
   failCount (health_run T h (replicate n (Probe False))) = failCount h + n \<and>
   OnFailure \<notin> set (health_callbacks T h (replicate n (Probe False))) \<and>
   status (health_step T h (Probe True)) = HEALTHY \<and>
   failCount (health_step T h (Probe True)) = 0 \<and>
   (0 < T \<longrightarrow> status (health_run T h (Probe True # replicate T (Probe False))) = FAILED)"
proof -
  assume rec: "status h = RECOVERED"
  then have s: "status h \<in> {RECOVERED, FAILED_OVER}" by simp
  have np: "Probe True \<notin> set (replicate n (Probe False))" by simp
  have nm: "MarkFailedOver \<notin> set (replicate n (Probe False))" by simp
  have ok: "status (health_step T h (Probe True)) = HEALTHY \<and>
      failCount (health_step T h (Probe True)) = 0"
    using rec by (simp add: check_health_def probe_settled_def Let_def)
  have rearm: "0 < T \<longrightarrow> status (health_run T h (Probe True # replicate T (Probe False))) = FAILED"
    using ok healthy_run_reaches_threshold[of "health_step T h (Probe True)" T]
    by (simp add: health_run_Cons)
  from recovered_run[OF s np, of T] nm rec ok rearm show ?thesis by auto
qed

theorem recovered_never_fails_again_witness:
  "status (initial_health\<lparr>status := RECOVERED\<rparr>) = RECOVERED \<and>
   status (health_run 3 (initial_health\<lparr>status := RECOVERED\<rparr>) (replicate 5 (Probe False))) = RECOVERED \<and>
   failCount (health_run 3 (initial_health\<lparr>status := RECOVERED\<rparr>) (replicate 5 (Probe False))) = 5 \<and>
   OnFailure \<notin> set (health_callbacks 3 (initial_health\<lparr>status := RECOVERED\<rparr>) (replicate 5 (Probe False))) \<and>
   (0::nat) < 3 \<and>
   status (health_run 3 (initial_health\<lparr>status := RECOVERED\<rparr>) (Probe True # replicate 3 (Probe False)))
     = FAILED"
  using recovered_never_fails_again [of "initial_health\<lparr>status := RECOVERED\<rparr>" 3 5]
  by (simp add: initial_health_def)

section \<open>Properties of the coordinator\<close>

lemmas coord_eval =
  demo_start_def demo_system_def start_system_def start_coordinator_def demo_ring_def
  getAllNodeNames_def getNodeUrl_def checkAll_steps_def run_steps_def probe_starts_def
  probe_settles_def promote_settles_def probe_settled_def onFailure_def onFailure_select_def
  onFailure_tail_def markFailedOver_def initial_health_def Let_def

lemma demo_a_failing_state:
  "promotedNodes (coord demo_a_failing) = Map.empty"
  "failoverEvents (coord demo_a_failing) = []"
  "pendingPromotes demo_a_failing = []"
  "map (\<lambda>(n, h). (n, status h, failCount h)) (nodeHealth (coord demo_a_failing)) =
     [(''node-a'', HEALTHY, 2), (''node-b'', HEALTHY, 0), (''node-c'', HEALTHY, 0)]"
  by (simp_all add: demo_a_failing_def world_a_down_promote_fails_def coord_eval)


text \<open>
  C1 as stated fails. After three rounds in which node-a did not answer, the
  monitor has declared node-a FAILED and called \<open>onFailure\<close>; node-b has answered
  the health probe, and the handler is suspended at the POST of \<open>/promote\<close> to
  node-b; there is no override and no failover event. The POST fails; and yet
  the rest of the handler inserts the override from node-a to node-b, marks
  node-a FAILED_OVER and appends a failover event.
\<close>

theorem promote_failure_counterexample:
  "promotedNodes (coord demo_a_failed) ''node-a'' = None \<and>
   failoverEvents (coord demo_a_failed) = [] \<and>
   pendingPromotes demo_a_failed = [(''node-a'', ''node-b'')] \<and>
   promoteError world_a_down_promote_fails ''node-b'' = Some ''connect ECONNREFUSED'' \<and>
   promotedNodes (coord (step demo_a_failed (PromoteSettles world_a_down_promote_fails 0))) ''node-a''
     = Some ''node-b'' \<and>
   map_option status
     (map_of (nodeHealth (coord (step demo_a_failed (PromoteSettles world_a_down_promote_fails 0))))
        ''node-a'')
     = Some FAILED_OVER \<and>
   failoverEvents (coord (step demo_a_failed (PromoteSettles world_a_down_promote_fails 0))) =
     [\<lparr>failedNode = ''node-a'', promotedNode = ''node-b'', timestamp = ''2026-01-01T00:00:00.000Z''\<rparr>] \<and>
   onFailure world_a_down_promote_fails ''node-a'' (coord demo_a_failed) =
     coord (step demo_a_failed (PromoteSettles world_a_down_promote_fails 0))"
  by (simp add: demo_a_failed_def demo_a_failing_def world_a_down_promote_fails_def coord_eval)

lemma markFailedOver_fields:
  "promotedNodes (markFailedOver n c) = promotedNodes c"
  "failoverEvents (markFailedOver n c) = failoverEvents c"
  "coord_ring (markFailedOver n c) = coord_ring c"
  "failureThreshold (markFailedOver n c) = failureThreshold c"
  "REPLICATION_FACTOR (markFailedOver n c) = REPLICATION_FACTOR c"
  by (simp_all add: markFailedOver_def split: option.splits)

lemma markFailedOver_health:
  "map_of (nodeHealth (markFailedOver n c)) m =
     (if m = n then map_option (\<lambda>h. h\<lparr>status := FAILED_OVER\<rparr>) (map_of (nodeHealth c) n)
      else map_of (nodeHealth c) m)"
  by (simp add: markFailedOver_def update_conv' split: option.splits)

text \<open>
  C1, as amended. The result of the POST of \<open>/promote\<close> has no influence on what
  \<open>onFailure\<close> does to the coordinator. When a candidate answers the health
  probe, the override from the failed node to the candidate is inserted, the
  health record of the failed node (if there is one) is marked FAILED_OVER and one
  failover event is appended, whether the POST succeeds or fails. The state is
  left unchanged when no candidate answers.
\<close>

theorem onFailure_ignores_promote_result:
  "onFailure (w\<lparr>promoteError := e\<rparr>) failed c = onFailure w failed c \<and>
   (find_candidate (candidateOk w failed) (getAllNodeNames (coord_ring c))
        (indexOf (getAllNodeNames (coord_ring c)) failed)
        [1..<length (getAllNodeNames (coord_ring c))] = Some p \<and> p \<noteq> [] \<longrightarrow>
      promotedNodes (onFailure w failed c) failed = Some p \<and>
      failoverEvents (onFailure w failed c) =
        failoverEvents c @ [\<lparr>failedNode = failed, promotedNode = p, timestamp = now w\<rparr>] \<and>
      map_option status (map_of (nodeHealth (onFailure w failed c)) failed) =
        map_option (\<lambda>h. FAILED_OVER) (map_of (nodeHealth c) failed)) \<and>
   (find_candidate (candidateOk w failed) (getAllNodeNames (coord_ring c))
        (indexOf (getAllNodeNames (coord_ring c)) failed)
        [1..<length (getAllNodeNames (coord_ring c))] = None \<longrightarrow>
      onFailure w failed c = c)"
  by (auto simp: onFailure_def onFailure_select_def onFailure_tail_def Let_def
           markFailedOver_fields markFailedOver_health option.map_comp comp_def
           split: option.splits)

theorem onFailure_ignores_promote_result_witness:
  "find_candidate (candidateOk world_a_down ''node-a'') (getAllNodeNames (coord_ring demo_start))
        (indexOf (getAllNodeNames (coord_ring demo_start)) ''node-a'')
        [1..<length (getAllNodeNames (coord_ring demo_start))] = Some ''node-b'' \<and>
   ''node-b'' \<noteq> [] \<and>
   onFailure (world_a_down\<lparr>promoteError := (\<lambda>n. Some ''timeout of 2000ms exceeded'')\<rparr>) ''node-a'' demo_start
     = onFailure world_a_down ''node-a'' demo_start \<and>
   promotedNodes (onFailure world_a_down ''node-a'' demo_start) ''node-a'' = Some ''node-b'' \<and>
   map_option status (map_of (nodeHealth (onFailure world_a_down ''node-a'' demo_start)) ''node-a'')
     = Some FAILED_OVER"
proof -
  have cand: "find_candidate (candidateOk world_a_down ''node-a'') (getAllNodeNames (coord_ring demo_start))
        (indexOf (getAllNodeNames (coord_ring demo_start)) ''node-a'')
        [1..<length (getAllNodeNames (coord_ring demo_start))] = Some ''node-b''"
    by (simp add: world_a_down_def coord_eval)
  have ne: "''node-b'' \<noteq> []" by simp
  have h: "map_option (\<lambda>h. FAILED_OVER) (map_of (nodeHealth demo_start) ''node-a'') = Some FAILED_OVER"
    by (simp add: coord_eval)
  note t = onFailure_ignores_promote_result
    [where w = world_a_down and e = "\<lambda>n. Some ''timeout of 2000ms exceeded''"
       and failed = "''node-a''" and c = demo_start and p = "''node-b''"]
  from t have 1: "onFailure (world_a_down\<lparr>promoteError := (\<lambda>n. Some ''timeout of 2000ms exceeded'')\<rparr>)
      ''node-a'' demo_start = onFailure world_a_down ''node-a'' demo_start"
    by (rule conjunct1)
  from t cand ne have 2: "promotedNodes (onFailure world_a_down ''node-a'' demo_start) ''node-a'' = Some ''node-b''"
    by blast
  from t cand ne have "map_option status (map_of (nodeHealth (onFailure world_a_down ''node-a'' demo_start)) ''node-a'')
      = map_option (\<lambda>h. FAILED_OVER) (map_of (nodeHealth demo_start) ''node-a'')"
    by blast
  with h have 3: "map_option status (map_of (nodeHealth (onFailure world_a_down ''node-a'' demo_start)) ''node-a'')
      = Some FAILED_OVER" by simp
  show ?thesis by (intro conjI cand ne 1 2 3)
qed

lemma indexOf_absent: "x \<notin> set xs \<Longrightarrow> indexOf xs x = -1"
  by (induction xs) (auto simp: Let_def)














lemma coord_reachable_run_steps:
  "coord_reachable s \<Longrightarrow> coord_reachable (run_steps s steps)"
proof (induction steps arbitrary: s)
  case Nil
  then show ?case by (simp add: run_steps_def)
next
  case (Cons st steps)
  from Cons.prems have "coord_reachable (step s st)" by (rule reach_step)
  from Cons.IH[OF this] show ?case by (simp add: run_steps_def)
qed


lemma demo_system_reachable: "coord_reachable demo_system"
  unfolding demo_system_def
  by (rule reach_start) (simp add: getAllNodeNames_def demo_ring_def)





lemma demo_urls:
  "getNodeUrl demo_ring ''node-a'' = Some ''http://node-a:5000''"
  "getNodeUrl demo_ring ''node-b'' = Some ''http://node-b:5000''"
  "getNodeUrl demo_ring ''node-c'' = Some ''http://node-c:5000''"
  by (simp_all add: getNodeUrl_def demo_ring_def)





lemma demo_b_failed_over_reachable: "coord_reachable demo_b_failed_over"
  unfolding demo_b_failed_over_def using demo_system_reachable by (rule coord_reachable_run_steps)

lemma demo_b_failed_over_state:
  "coord_ring (coord demo_b_failed_over) = demo_ring"
  "REPLICATION_FACTOR (coord demo_b_failed_over) = 3"
  "promotedNodes (coord demo_b_failed_over) = [''node-b'' \<mapsto> ''node-c'']"
  "pendingPromotes demo_b_failed_over = []"
  by (simp_all add: demo_b_failed_over_def world_b_down_def coord_eval)

lemma demo_bc_failed_over_reachable: "coord_reachable demo_bc_failed_over"
  unfolding demo_bc_failed_over_def using demo_system_reachable by (rule coord_reachable_run_steps)

lemma demo_bc_failed_over_state:
  "coord_ring (coord demo_bc_failed_over) = demo_ring"
  "REPLICATION_FACTOR (coord demo_bc_failed_over) = 3"
  "promotedNodes (coord demo_bc_failed_over) = [''node-b'' \<mapsto> ''node-a'', ''node-c'' \<mapsto> ''node-a'']"
  "pendingPromotes demo_bc_failed_over = []"
  by (simp_all add: demo_bc_failed_over_def world_bc_down_def coord_eval)

text \<open>
  C3 as stated fails. In the state \<open>demo_b_failed_over\<close> node-b has failed and
  node-c has been promoted in its place. The key order_3 has the raw replicas
  node-c and node-b, which both map to node-c: the replica list and the
  \<open>replicateTo\<close> list of the produce hold node-c twice.
\<close>

theorem replicas_duplicate_counterexample:
  "coord_reachable demo_b_failed_over \<and>
   promotedNodes (coord demo_b_failed_over) = [''node-b'' \<mapsto> ''node-c''] \<and>
   getNodesForKey sha256_prefix (coord_ring (coord demo_b_failed_over)) (JString ''order_3'')
       (REPLICATION_FACTOR (coord demo_b_failed_over)) =
     Inr \<lparr>primary = Some ''node-a'', replicas = [Some ''node-c'', Some ''node-b''],
          keyHash = 3167183801\<rparr> \<and>
   produce_route sha256_prefix (coord demo_b_failed_over) (JString ''order_3'') =
     Inr \<lparr>plan_primary = Some ''node-a'', plan_replicas = [Some ''node-c'', Some ''node-c''],
          plan_primaryUrl = Some ''http://node-a:5000'',
          plan_replicateTo = [''http://node-c:5000'', ''http://node-c:5000'']\<rparr> \<and>
   produce sha256_prefix (coord demo_b_failed_over) (JString ''order_3'') (JString ''x'') =
     ProduceStore \<lparr>plan_primary = Some ''node-a'', plan_replicas = [Some ''node-c'', Some ''node-c''],
          plan_primaryUrl = Some ''http://node-a:5000'',
          plan_replicateTo = [''http://node-c:5000'', ''http://node-c:5000'']\<rparr>"
proof -
  have 1: "getNodesForKey sha256_prefix (coord_ring (coord demo_b_failed_over)) (JString ''order_3'')
       (REPLICATION_FACTOR (coord demo_b_failed_over)) =
     Inr \<lparr>primary = Some ''node-a'', replicas = [Some ''node-c'', Some ''node-b''],
          keyHash = 3167183801\<rparr>"
    by (simp add: demo_b_failed_over_state demo_order_3)
  have 2: "produce_route sha256_prefix (coord demo_b_failed_over) (JString ''order_3'') =
     Inr \<lparr>plan_primary = Some ''node-a'', plan_replicas = [Some ''node-c'', Some ''node-c''],
          plan_primaryUrl = Some ''http://node-a:5000'',
          plan_replicateTo = [''http://node-c:5000'', ''http://node-c:5000'']\<rparr>"
    by (simp add: produce_route_def demo_b_failed_over_state demo_order_3 resolveEffectivePrimary_def
          getNodeUrl_js_def demo_urls)
  have 3: "produce sha256_prefix (coord demo_b_failed_over) (JString ''order_3'') (JString ''x'') =
     ProduceStore \<lparr>plan_primary = Some ''node-a'', plan_replicas = [Some ''node-c'', Some ''node-c''],
          plan_primaryUrl = Some ''http://node-a:5000'',
          plan_replicateTo = [''http://node-c:5000'', ''http://node-c:5000'']\<rparr>"
    by (simp add: produce_def 2)
  show ?thesis
    by (intro conjI demo_b_failed_over_reachable demo_b_failed_over_state(3) 1 2 3)
qed

lemma count_list_filter_map:
  "x \<noteq> p \<Longrightarrow>
   count_list (filter (\<lambda>n. n \<noteq> p) (map f xs)) x = length (filter (\<lambda>n. f n = x) xs)"
  by (induction xs) auto

lemma distinct_filter_map:
  assumes "distinct xs"
  shows "distinct (filter (\<lambda>n. n \<noteq> p) (map f xs)) \<longleftrightarrow> inj_on f {n \<in> set xs. f n \<noteq> p}"
proof -
  have "filter (\<lambda>n. n \<noteq> p) (map f xs) = map f (filter (\<lambda>n. f n \<noteq> p) xs)"
    by (simp add: filter_map comp_def)
  moreover have "distinct (filter (\<lambda>n. f n \<noteq> p) xs)" using assms by simp
  moreover have "set (filter (\<lambda>n. f n \<noteq> p) xs) = {n \<in> set xs. f n \<noteq> p}" by simp
  ultimately show ?thesis by (simp only: distinct_map) simp
qed

lemma count_list_urls:
  assumes "g x = [u]"
  shows "count_list reps x \<le> count_list (concat (map g reps)) u"
  using assms by (induction reps) (auto simp: count_list_append)

text \<open>
  C3, as amended. The replica list of a produce is the list of the raw replicas,
  each mapped through the override map, in ring order, without the entries equal
  to the effective primary, which is therefore not in it. Duplicates are not
  collapsed: a broker other than the effective primary occurs in the list once
  for each raw replica that maps to it, so the list is free of duplicates exactly
  when no two raw replicas map to the same broker other than the effective
  primary; with an empty override map it is the list of the raw replicas. The
  \<open>replicateTo\<close> list holds the URLs of the replicas in the same order, so a
  broker with a URL occurs in it at least as often as in the replica list.
\<close>

theorem produce_replicas_mapped:
  assumes "getNodesForKey H (coord_ring c) key (REPLICATION_FACTOR c) = Inr kn"
  shows "\<exists>plan. produce_route H c key = Inr plan \<and>
     plan_primary plan = resolveEffectivePrimary (promotedNodes c) (primary kn) \<and>
     plan_replicas plan =
       filter (\<lambda>n. n \<noteq> plan_primary plan)
         (map (resolveEffectivePrimary (promotedNodes c)) (replicas kn)) \<and>
     plan_primary plan \<notin> set (plan_replicas plan) \<and>
     distinct (replicas kn) \<and>
     (\<forall>x. x \<noteq> plan_primary plan \<longrightarrow>
        count_list (plan_replicas plan) x =
          length (filter (\<lambda>n. resolveEffectivePrimary (promotedNodes c) n = x) (replicas kn))) \<and>
     (distinct (plan_replicas plan) \<longleftrightarrow>
        inj_on (resolveEffectivePrimary (promotedNodes c))
          {n \<in> set (replicas kn).
             resolveEffectivePrimary (promotedNodes c) n \<noteq> plan_primary plan}) \<and>
     (promotedNodes c = Map.empty \<longrightarrow> plan_replicas plan = replicas kn) \<and>
     plan_replicateTo plan =
       concat (map (\<lambda>n. case getNodeUrl_js (coord_ring c) n of
                           None \<Rightarrow> [] | Some u \<Rightarrow> if u = [] then [] else [u])
                 (plan_replicas plan)) \<and>
     (\<forall>x u. getNodeUrl_js (coord_ring c) x = Some u \<and> u \<noteq> [] \<longrightarrow>
        count_list (plan_replicas plan) x \<le> count_list (plan_replicateTo plan) u)"
proof -
  let ?res = "resolveEffectivePrimary (promotedNodes c)"
  let ?g = "\<lambda>n. case getNodeUrl_js (coord_ring c) n of
                           None \<Rightarrow> [] | Some u \<Rightarrow> if u = [] then [] else [u]"
  from assms have ne: "nodes (coord_ring c) \<noteq> []"
    by (auto simp: getNodesForKey_def split: if_splits)
  from assms obtain k where k: "key = JString k"
    by (cases key) (auto simp: getNodesForKey_def split: if_splits)
  define A where "A = take (nat (REPLICATION_FACTOR c))
      (first_occurrences (clockwise_owners (coord_ring c)
         (findClockwiseIndex (coord_ring c) (hash H k))))"
  have dA: "distinct A" by (simp add: A_def)
  from getNodesForKey_walk[OF ne, of H k "REPLICATION_FACTOR c"] assms
  have kn: "primary kn = (case A of [] \<Rightarrow> None | p # rest \<Rightarrow> p)"
    "replicas kn = (case A of [] \<Rightarrow> [] | p # rest \<Rightarrow> rest)"
    unfolding A_def k by auto
  have "distinct (replicas kn) \<and> primary kn \<notin> set (replicas kn)"
  proof (cases A)
    case Nil
    then show ?thesis by (simp add: kn)
  next
    case (Cons p rest)
    with dA have "distinct (p # rest)" by simp
    with Cons show ?thesis by (simp add: kn)
  qed
  then have dr: "distinct (replicas kn)" and pr: "primary kn \<notin> set (replicas kn)"
    by simp_all
  define reps where "reps = filter (\<lambda>n. n \<noteq> ?res (primary kn)) (map ?res (replicas kn))"
  have id: "promotedNodes c = Map.empty \<Longrightarrow> ?res = (\<lambda>n. n)"
    by (auto simp: resolveEffectivePrimary_def fun_eq_iff split: option.splits)
  have cnt: "\<forall>x. x \<noteq> ?res (primary kn) \<longrightarrow>
      count_list reps x = length (filter (\<lambda>n. ?res n = x) (replicas kn))"
    unfolding reps_def by (simp add: count_list_filter_map)
  have dist: "distinct reps \<longleftrightarrow> inj_on ?res {n \<in> set (replicas kn). ?res n \<noteq> ?res (primary kn)}"
    unfolding reps_def using dr by (rule distinct_filter_map)
  have same: "promotedNodes c = Map.empty \<longrightarrow> reps = replicas kn"
  proof
    assume e: "promotedNodes c = Map.empty"
    have "filter (\<lambda>n. n \<noteq> primary kn) (replicas kn) = replicas kn"
      using pr by (auto simp: filter_id_conv)
    then show "reps = replicas kn"
      by (simp add: reps_def id[OF e])
  qed
  have notin: "?res (primary kn) \<notin> set reps" by (simp add: reps_def)
  have urls: "\<forall>x u. getNodeUrl_js (coord_ring c) x = Some u \<and> u \<noteq> [] \<longrightarrow>
      count_list reps x \<le> count_list (concat (map ?g reps)) u"
  proof (intro allI impI)
    fix x u
    assume "getNodeUrl_js (coord_ring c) x = Some u \<and> u \<noteq> []"
    then have "?g x = [u]" by simp
    then show "count_list reps x \<le> count_list (concat (map ?g reps)) u"
      by (rule count_list_urls)
  qed
  have route: "produce_route H c key =
      Inr \<lparr>plan_primary = ?res (primary kn), plan_replicas = reps,
           plan_primaryUrl = getNodeUrl_js (coord_ring c) (?res (primary kn)),
           plan_replicateTo = concat (map ?g reps)\<rparr>"
    using assms by (simp add: produce_route_def Let_def reps_def)
  show ?thesis
    unfolding route using dr cnt dist same notin urls by (simp add: reps_def)
qed

theorem produce_replicas_mapped_witness:
  "getNodesForKey sha256_prefix (coord_ring demo_start) (JString ''order_3'')
       (REPLICATION_FACTOR demo_start) =
     Inr \<lparr>primary = Some ''node-a'', replicas = [Some ''node-c'', Some ''node-b''],
          keyHash = 3167183801\<rparr> \<and>
   promotedNodes demo_start = Map.empty \<and>
   (\<exists>plan. produce_route sha256_prefix demo_start (JString ''order_3'') = Inr plan \<and>
      plan_primary plan = Some ''node-a'' \<and>
      plan_replicas plan = [Some ''node-c'', Some ''node-b''] \<and>
      distinct (plan_replicas plan)) \<and>
   getNodesForKey sha256_prefix (coord_ring (coord demo_bc_failed_over)) (JString ''order_3'')
       (REPLICATION_FACTOR (coord demo_bc_failed_over)) =
     Inr \<lparr>primary = Some ''node-a'', replicas = [Some ''node-c'', Some ''node-b''],
          keyHash = 3167183801\<rparr> \<and>
   promotedNodes (coord demo_bc_failed_over) = [''node-b'' \<mapsto> ''node-a'', ''node-c'' \<mapsto> ''node-a''] \<and>
   (\<exists>plan. produce_route sha256_prefix (coord demo_bc_failed_over) (JString ''order_3'') = Inr plan \<and>
      plan_primary plan = Some ''node-a'' \<and>
      count_list (plan_replicas plan) (Some ''node-b'') = 0 \<and>
      count_list (plan_replicas plan) (Some ''node-c'') = 0 \<and>
      distinct (plan_replicas plan)) \<and>
   produce_route sha256_prefix (coord demo_bc_failed_over) (JString ''order_3'') =
     Inr \<lparr>plan_primary = Some ''node-a'', plan_replicas = [],
          plan_primaryUrl = Some ''http://node-a:5000'', plan_replicateTo = []\<rparr>"
proof -
  let ?c = "coord demo_bc_failed_over"
  have 1: "getNodesForKey sha256_prefix (coord_ring demo_start) (JString ''order_3'')
       (REPLICATION_FACTOR demo_start) =
     Inr \<lparr>primary = Some ''node-a'', replicas = [Some ''node-c'', Some ''node-b''],
          keyHash = 3167183801\<rparr>"
    by (simp add: demo_start_def start_coordinator_def demo_order_3)
  have 2: "promotedNodes demo_start = Map.empty"
    by (simp add: demo_start_def start_coordinator_def)
  from produce_replicas_mapped[OF 1] obtain plan where
    plan: "produce_route sha256_prefix demo_start (JString ''order_3'') = Inr plan"
      "plan_primary plan = resolveEffectivePrimary (promotedNodes demo_start) (Some ''node-a'')"
      "promotedNodes demo_start = Map.empty \<longrightarrow> plan_replicas plan = [Some ''node-c'', Some ''node-b'']"
    by auto
  have p: "plan_primary plan = Some ''node-a''"
    using plan(2) by (simp add: 2 resolveEffectivePrimary_def)
  have r: "plan_replicas plan = [Some ''node-c'', Some ''node-b'']"
    using plan(3) 2 by (rule mp)
  have d: "distinct (plan_replicas plan)" by (simp add: r)
  from plan(1) p r d have 3: "\<exists>plan. produce_route sha256_prefix demo_start (JString ''order_3'') = Inr plan \<and>
      plan_primary plan = Some ''node-a'' \<and>
      plan_replicas plan = [Some ''node-c'', Some ''node-b''] \<and>
      distinct (plan_replicas plan)"
    by blast
  have 4: "getNodesForKey sha256_prefix (coord_ring ?c) (JString ''order_3'')
       (REPLICATION_FACTOR ?c) =
     Inr \<lparr>primary = Some ''node-a'', replicas = [Some ''node-c'', Some ''node-b''],
          keyHash = 3167183801\<rparr>"
    by (simp add: demo_bc_failed_over_state demo_order_3)
  have res: "resolveEffectivePrimary (promotedNodes ?c) (Some ''node-a'') = Some ''node-a''"
    "resolveEffectivePrimary (promotedNodes ?c) (Some ''node-b'') = Some ''node-a''"
    "resolveEffectivePrimary (promotedNodes ?c) (Some ''node-c'') = Some ''node-a''"
    by (simp_all add: demo_bc_failed_over_state resolveEffectivePrimary_def)
  from produce_replicas_mapped[OF 4] obtain plan2 where
    plan2: "produce_route sha256_prefix ?c (JString ''order_3'') = Inr plan2"
      "plan_primary plan2 = resolveEffectivePrimary (promotedNodes ?c) (Some ''node-a'')"
      "\<forall>x. x \<noteq> plan_primary plan2 \<longrightarrow>
        count_list (plan_replicas plan2) x =
          length (filter (\<lambda>n. resolveEffectivePrimary (promotedNodes ?c) n = x)
            [Some ''node-c'', Some ''node-b''])"
      "distinct (plan_replicas plan2) \<longleftrightarrow>
        inj_on (resolveEffectivePrimary (promotedNodes ?c))
          {n \<in> set [Some ''node-c'', Some ''node-b''].
             resolveEffectivePrimary (promotedNodes ?c) n \<noteq> plan_primary plan2}"
    by auto
  have p2: "plan_primary plan2 = Some ''node-a''" using plan2(2) by (simp add: res)
  have cb: "count_list (plan_replicas plan2) (Some ''node-b'') = 0"
    using plan2(3)[rule_format, of "Some ''node-b''"] by (simp add: p2 res)
  have cc: "count_list (plan_replicas plan2) (Some ''node-c'') = 0"
    using plan2(3)[rule_format, of "Some ''node-c''"] by (simp add: p2 res)
  have "{n \<in> set [Some ''node-c'', Some ''node-b''].
          resolveEffectivePrimary (promotedNodes ?c) n \<noteq> Some ''node-a''} = {}"
    using res(2,3) by auto
  then have d2: "distinct (plan_replicas plan2)"
    using plan2(4) by (simp only: p2 inj_on_empty)
  from plan2(1) p2 cb cc d2 have 5:
    "\<exists>plan. produce_route sha256_prefix ?c (JString ''order_3'') = Inr plan \<and>
      plan_primary plan = Some ''node-a'' \<and>
      count_list (plan_replicas plan) (Some ''node-b'') = 0 \<and>
      count_list (plan_replicas plan) (Some ''node-c'') = 0 \<and>
      distinct (plan_replicas plan)"
    by blast
  have 6: "produce_route sha256_prefix ?c (JString ''order_3'') =
     Inr \<lparr>plan_primary = Some ''node-a'', plan_replicas = [],
          plan_primaryUrl = Some ''http://node-a:5000'', plan_replicateTo = []\<rparr>"
    by (simp add: produce_route_def demo_bc_failed_over_state demo_order_3 resolveEffectivePrimary_def
          getNodeUrl_js_def demo_urls)
  show ?thesis
    by (intro conjI 1 2 3 4 demo_bc_failed_over_state(3) 5 6)
qed

section \<open>Properties of the broker\<close>

lemma replicate_loop_spec:
  "replicate_loop post key i urls = (results, acts) \<Longrightarrow>
   length results = length urls \<and>
   map rr_node results = urls \<and>
   acts = map (\<lambda>u. ReplicatePost u key) urls \<and>
   (\<forall>j<length urls. rr_status (results ! j) =
        (if post (i + j) (urls ! j) = None then ''success'' else ''failed'') \<and>
      rr_error (results ! j) = post (i + j) (urls ! j))"
proof (induction urls arbitrary: i results acts)
  case Nil
  then show ?case by simp
next
  case (Cons u urls)
  obtain results' acts' where rest: "replicate_loop post key (i + 1) urls = (results', acts')"
    by (cases "replicate_loop post key (i + 1) urls")
  define res where "res = (case post i u of
       None \<Rightarrow> \<lparr>rr_node = u, rr_status = ''success'', rr_error = None\<rparr>
     | Some msg \<Rightarrow> \<lparr>rr_node = u, rr_status = ''failed'', rr_error = Some msg\<rparr>)"
  from Cons.prems rest have r: "results = res # results'" and a: "acts = ReplicatePost u key # acts'"
    by (simp_all add: Let_def res_def)
  have res: "rr_node res = u" "rr_status res = (if post i u = None then ''success'' else ''failed'')"
    "rr_error res = post i u"
    by (simp_all add: res_def split: option.splits)
  note IH = Cons.IH[OF rest]
  have "\<forall>j<length (u # urls). rr_status (results ! j) =
        (if post (i + j) ((u # urls) ! j) = None then ''success'' else ''failed'') \<and>
      rr_error (results ! j) = post (i + j) ((u # urls) ! j)"
  proof (intro allI impI)
    fix j assume j: "j < length (u # urls)"
    show "rr_status (results ! j) =
        (if post (i + j) ((u # urls) ! j) = None then ''success'' else ''failed'') \<and>
      rr_error (results ! j) = post (i + j) ((u # urls) ! j)"
    proof (cases j)
      case 0
      with res r show ?thesis by simp
    next
      case (Suc k)
      with j have "k < length urls" by simp
      with IH have "rr_status (results' ! k) =
          (if post (i + 1 + k) (urls ! k) = None then ''success'' else ''failed'') \<and>
        rr_error (results' ! k) = post (i + 1 + k) (urls ! k)" by blast
      with Suc r show ?thesis by simp
    qed
  qed
  with IH r a res show ?case by simp
qed

text \<open>
  C6. For a request to \<open>/store\<close> with a key and a payload, \<open>urls\<close> being its
  \<open>replicateTo\<close> list (empty when the field is missing): the local write with
  role primary comes first, followed by one POST of \<open>/replicate\<close> per replica URL
  in order; the entry written locally is in the store at the end whatever the
  results of the replications; the response is 201 with \<open>success\<close> true; and
  \<open>replicationResults\<close> has one entry per replica URL, in order, whose status is
  success when that POST succeeded and failed when it did not.
\<close>

theorem store_replication_failure_not_fatal:
  assumes "req_key req = Some key" "key \<noteq> []" "req_payload req = Some pl"
    and "urls = (case req_replicateTo req of None \<Rightarrow> [] | Some us \<Rightarrow> us)"
  shows "\<exists>b' body acts. store NODE_ID post t req b = (b', Status201 body, acts) \<and>
     acts = LocalWrite key ''primary'' # map (\<lambda>u. ReplicatePost u key) urls \<and>
     messageStore b' key =
       Some \<lparr>payload = pl, stored_at = t, role = ''primary'', replicaOf = None\<rparr> \<and>
     success body \<and>
     length (replicationResults body) = length urls \<and>
     map rr_node (replicationResults body) = urls \<and>
     list_all (\<lambda>r. rr_status r = ''success'' \<or> rr_status r = ''failed'') (replicationResults body) \<and>
     map (\<lambda>r. rr_status r = ''failed'') (replicationResults body) =
       map (\<lambda>j. post j (urls ! j) \<noteq> None) [0..<length urls]"
proof -
  obtain results racts where loop: "replicate_loop post key 0 urls = (results, racts)"
    by (cases "replicate_loop post key 0 urls")
  from replicate_loop_spec[OF loop] have spec:
    "length results = length urls" "map rr_node results = urls"
    "racts = map (\<lambda>u. ReplicatePost u key) urls"
    "\<And>j. j < length urls \<Longrightarrow> rr_status (results ! j) =
        (if post j (urls ! j) = None then ''success'' else ''failed'')"
    by simp_all
  have all: "list_all (\<lambda>r. rr_status r = ''success'' \<or> rr_status r = ''failed'') results"
    unfolding list_all_length using spec(1,4) by auto
  have st: "map (\<lambda>r. rr_status r = ''failed'') results =
      map (\<lambda>j. post j (urls ! j) \<noteq> None) [0..<length urls]"
    by (rule nth_equalityI) (use spec(1,4) in auto)
  show ?thesis
    using assms loop spec(1,2,3) all st by (simp add: store_def Let_def)
qed

theorem store_replication_failure_not_fatal_witness:
  "req_key \<lparr>req_key = Some ''order_1'', req_payload = Some ''{}'',
            req_replicateTo = Some [''http://node-b:5000'', ''http://node-a:5000'']\<rparr> = Some ''order_1'' \<and>
   ''order_1'' \<noteq> [] \<and>
   (\<exists>b' body acts.
      store ''node-c'' (\<lambda>j u. if j = 0 then Some ''connect ECONNREFUSED'' else None) ''2026-01-01T00:00:00.000Z''
        \<lparr>req_key = Some ''order_1'', req_payload = Some ''{}'',
         req_replicateTo = Some [''http://node-b:5000'', ''http://node-a:5000'']\<rparr>
        \<lparr>messageStore = Map.empty, replicationLog = []\<rparr> = (b', Status201 body, acts) \<and>
      acts = [LocalWrite ''order_1'' ''primary'', ReplicatePost ''http://node-b:5000'' ''order_1'',
              ReplicatePost ''http://node-a:5000'' ''order_1''] \<and>
      messageStore b' ''order_1'' =
        Some \<lparr>payload = ''{}'', stored_at = ''2026-01-01T00:00:00.000Z'', role = ''primary'',
              replicaOf = None\<rparr> \<and>
      success body \<and>
      map (\<lambda>r. rr_status r = ''failed'') (replicationResults body) = [True, False])"
proof -
  let ?req = "\<lparr>req_key = Some ''order_1'', req_payload = Some ''{}'',
            req_replicateTo = Some [''http://node-b:5000'', ''http://node-a:5000'']\<rparr>"
  let ?post = "\<lambda>j u. if j = (0::nat) then Some ''connect ECONNREFUSED'' else None"
  have h: "req_key ?req = Some ''order_1''" "''order_1'' \<noteq> []" "req_payload ?req = Some ''{}''"
    "[''http://node-b:5000'', ''http://node-a:5000''] =
       (case req_replicateTo ?req of None \<Rightarrow> [] | Some us \<Rightarrow> us)"
    by simp_all
  have up: "[0..<length [''http://node-b:5000'', ''http://node-a:5000'']] = [0, Suc 0]"
    by simp
  from store_replication_failure_not_fatal[OF h, of "''node-c''" ?post "''2026-01-01T00:00:00.000Z''"
      "\<lparr>messageStore = Map.empty, replicationLog = []\<rparr>"]
  obtain b' body acts where r:
    "store ''node-c'' ?post ''2026-01-01T00:00:00.000Z'' ?req \<lparr>messageStore = Map.empty, replicationLog = []\<rparr>
       = (b', Status201 body, acts)"
    "acts = LocalWrite ''order_1'' ''primary'' #
       map (\<lambda>u. ReplicatePost u ''order_1'') [''http://node-b:5000'', ''http://node-a:5000'']"
    "messageStore b' ''order_1'' =
        Some \<lparr>payload = ''{}'', stored_at = ''2026-01-01T00:00:00.000Z'', role = ''primary'',
              replicaOf = None\<rparr>"
    "success body"
    "map (\<lambda>r. rr_status r = ''failed'') (replicationResults body) =
       map (\<lambda>j. ?post j ([''http://node-b:5000'', ''http://node-a:5000''] ! j) \<noteq> None)
         [0..<length [''http://node-b:5000'', ''http://node-a:5000'']]"
    by blast
  from r(2) have a: "acts = [LocalWrite ''order_1'' ''primary'', ReplicatePost ''http://node-b:5000'' ''order_1'',
              ReplicatePost ''http://node-a:5000'' ''order_1'']" by simp
  from r(5) have s: "map (\<lambda>r. rr_status r = ''failed'') (replicationResults body) = [True, False]"
    unfolding up by simp
  show ?thesis
    apply (intro conjI h(1,2))
    apply (rule exI[of _ b'], rule exI[of _ body], rule exI[of _ acts])
    apply (intro conjI r(1) a r(3) r(4) s)
    done
qed

end
